theory Spec2Isabelle
  imports Main "HOL-Library.Word"
begin

text \<open>
  A model of \<^verbatim>\<open>main.go\<close> of snobs, the HTTP relay that adds the members of a user group
  as reviewers to a pull request: the intersection of user lists, the library functions
  and the regular expression the handlers rely on, the server with its membership cache
  and its requests to the remote platform, and the request router. A handler is
  modelled as the function it is when nothing interrupts it, and as a sequence of steps
  that interleave with the steps of the other requests in flight. Logging is left out.
\<close>

section \<open>Intersection engine\<close>

text \<open>
  \<^verbatim>\<open>getIntersection(original, other)\<close> of \<^verbatim>\<open>main.go\<close> is three nested loops:
  over \<^verbatim>\<open>original\<close>, over \<^verbatim>\<open>other\<close> and, at every equal pair, over the
  \<^verbatim>\<open>intersection\<close> built so far (with \<^verbatim>\<open>break\<close> at the first hit).
  Each loop is one recursive function; the slice under construction is threaded through.
\<close>

text \<open>The innermost loop: is \<open>origItem\<close> already in the intersection?\<close>

fun exists_loop :: "string \<Rightarrow> string list \<Rightarrow> bool" where
  "exists_loop origItem [] = False"
| "exists_loop origItem (interItem # rest) =
     (if origItem = interItem then True else exists_loop origItem rest)"

text \<open>The loop over \<^verbatim>\<open>other\<close> for one \<open>origItem\<close>.\<close>

fun other_loop :: "string \<Rightarrow> string list \<Rightarrow> string list \<Rightarrow> string list" where
  "other_loop origItem [] intersection = intersection"
| "other_loop origItem (otherItem # rest) intersection =
     (if origItem = otherItem
      then (if \<not> exists_loop origItem intersection
            then other_loop origItem rest (intersection @ [origItem])
            else other_loop origItem rest intersection)
      else other_loop origItem rest intersection)"

text \<open>The loop over \<^verbatim>\<open>original\<close>.\<close>

fun original_loop :: "string list \<Rightarrow> string list \<Rightarrow> string list \<Rightarrow> string list" where
  "original_loop [] other intersection = intersection"
| "original_loop (origItem # rest) other intersection =
     original_loop rest other (other_loop origItem other intersection)"

definition getIntersection :: "string list \<Rightarrow> string list \<Rightarrow> string list" where
  "getIntersection original other = original_loop original other []"

text \<open>
  The specification's wording of the same operation, for comparison: walk the target in
  order and include a user that appears anywhere in the others and has not been included
  yet.
\<close>

fun intersect_spec :: "string list \<Rightarrow> string list \<Rightarrow> string list \<Rightarrow> string list" where
  "intersect_spec [] others included = included"
| "intersect_spec (u # target) others included =
     intersect_spec target others
       (if u \<in> set others \<and> u \<notin> set included then included @ [u] else included)"

text \<open>Keeping the first occurrence of every element (\<open>remdups\<close> keeps the last one).\<close>

definition first_occurrences :: "'a list \<Rightarrow> 'a list" where
  "first_occurrences xs = rev (remdups (rev xs))"

section \<open>Library functions the handlers call\<close>

text \<open>
  Go strings are byte sequences; \<open>string\<close> (a list of 8-bit characters) models them.
  Every delimiter below is an ASCII character, which never occurs inside a multi-byte
  UTF-8 sequence, so working on bytes agrees with Go's work on code points.
\<close>

text \<open>\<^verbatim>\<open>strings.Trim(s, cutset)\<close>: drop the leading and the trailing characters that are in the cutset.\<close>

definition Trim :: "string \<Rightarrow> string \<Rightarrow> string" where
  "Trim s cutset =
     rev (dropWhile (\<lambda>c. c \<in> set cutset) (rev (dropWhile (\<lambda>c. c \<in> set cutset) s)))"

text \<open>\<^verbatim>\<open>strings.Index(s, sep)\<close>: the first position where \<open>sep\<close> starts, if any.\<close>

fun Index :: "string \<Rightarrow> string \<Rightarrow> nat option" where
  "Index [] sep = (if sep = [] then Some 0 else None)"
| "Index (x # xs) sep =
     (if take (length sep) (x # xs) = sep then Some 0 else map_option Suc (Index xs sep))"

text \<open>
  \<^verbatim>\<open>strings.SplitN(s, sep, n)\<close> for a non-empty separator and \<open>n \<ge> 0\<close>: at most \<open>n\<close>
  pieces, the last one being the unsplit remainder. On the empty string it returns one
  empty piece, not an empty slice.
\<close>

fun SplitN :: "string \<Rightarrow> string \<Rightarrow> nat \<Rightarrow> string list" where
  "SplitN s sep 0 = []"
| "SplitN s sep (Suc 0) = [s]"
| "SplitN s sep (Suc (Suc n)) =
     (case Index s sep of
        None \<Rightarrow> [s]
      | Some m \<Rightarrow> take m s # SplitN (drop (m + length sep) s) sep (Suc n))"

section \<open>Regular expressions as the handler uses them\<close>

text \<open>
  \<^verbatim>\<open>regexp.FindStringSubmatch\<close> returns the leftmost match and, among the matches that
  start there, the one a backtracking search finds first. The matcher below is that
  backtracking search: for a pattern and an input it lists, in the order of preference,
  every way the pattern can match a prefix of the input, each with the groups it
  captured and the input left over. Repetition is needed over character classes only.
\<close>

datatype cclass =
    Dot                \<comment> \<open>\<^verbatim>\<open>.\<close>: any character but a line feed\<close>
  | NotOneOf string    \<comment> \<open>\<^verbatim>\<open>[^...]\<close>\<close>
  | Digit              \<comment> \<open>\<^verbatim>\<open>\d\<close>: an ASCII digit\<close>

fun cmatch :: "cclass \<Rightarrow> char \<Rightarrow> bool" where
  "cmatch Dot c = (c \<noteq> CHR 0x0A)"
| "cmatch (NotOneOf cs) c = (c \<notin> set cs)"
| "cmatch Digit c = (c \<in> set ''0123456789'')"

datatype re =
    Lit string         \<comment> \<open>literal text\<close>
  | Opt re             \<comment> \<open>\<^verbatim>\<open>r?\<close>, greedy\<close>
  | Star cclass        \<comment> \<open>\<^verbatim>\<open>c*\<close>, greedy\<close>
  | Plus cclass        \<comment> \<open>\<^verbatim>\<open>c+\<close>, greedy\<close>
  | Alt re re          \<comment> \<open>\<^verbatim>\<open>a|b\<close>, the left alternative first\<close>
  | Seq re re          \<comment> \<open>concatenation\<close>
  | Grp nat re         \<comment> \<open>capturing group with its number\<close>

type_synonym captures = "(nat \<times> string) list"

fun rmatch :: "re \<Rightarrow> string \<Rightarrow> (captures \<times> string) list" where
  "rmatch (Lit l) s = (if take (length l) s = l then [([], drop (length l) s)] else [])"
| "rmatch (Opt r) s = rmatch r s @ [([], s)]"
| "rmatch (Star c) s =
     map (\<lambda>k. ([], drop k s)) (rev [0 ..< Suc (length (takeWhile (cmatch c) s))])"
| "rmatch (Plus c) s =
     map (\<lambda>k. ([], drop k s)) (rev [1 ..< Suc (length (takeWhile (cmatch c) s))])"
| "rmatch (Alt a b) s = rmatch a s @ rmatch b s"
| "rmatch (Seq a b) s =
     concat (map (\<lambda>(c1, s1). map (\<lambda>(c2, s2). (c1 @ c2, s2)) (rmatch b s1)) (rmatch a s))"
| "rmatch (Grp i r) s =
     map (\<lambda>(c, s'). ((i, take (length s - length s') s) # c, s')) (rmatch r s)"

fun num_subexp :: "re \<Rightarrow> nat" where
  "num_subexp (Lit l) = 0"
| "num_subexp (Opt r) = num_subexp r"
| "num_subexp (Star c) = 0"
| "num_subexp (Plus c) = 0"
| "num_subexp (Alt a b) = num_subexp a + num_subexp b"
| "num_subexp (Seq a b) = num_subexp a + num_subexp b"
| "num_subexp (Grp i r) = Suc (num_subexp r)"

text \<open>The leftmost start at which the pattern matches: the matched text and its groups.\<close>

fun find_first :: "re \<Rightarrow> string \<Rightarrow> (string \<times> captures) option" where
  "find_first r [] =
     (case rmatch r [] of [] \<Rightarrow> None | (caps, rest) # _ \<Rightarrow> Some ([], caps))"
| "find_first r (x # xs) =
     (case rmatch r (x # xs) of
        [] \<Rightarrow> find_first r xs
      | (caps, rest) # _ \<Rightarrow> Some (take (length (x # xs) - length rest) (x # xs), caps))"

text \<open>
  The result slice: the whole match, then the text of each group by number (empty for a
  group that took no part); the empty slice when the pattern matches nowhere.
\<close>

definition group_text :: "captures \<Rightarrow> nat \<Rightarrow> string" where
  "group_text caps i = (case map_of caps i of None \<Rightarrow> [] | Some t \<Rightarrow> t)"

definition FindStringSubmatch :: "re \<Rightarrow> string \<Rightarrow> string list" where
  "FindStringSubmatch r s =
     (case find_first r s of
        None \<Rightarrow> []
      | Some (whole, caps) \<Rightarrow> whole # map (group_text caps) [1 ..< Suc (num_subexp r)])"

text \<open>
  The pattern of \<^verbatim>\<open>main.go\<close>:
  \<^verbatim>\<open>(https?://.*/)(users|projects)/([^/]+)/repos/([^/]+)/pull-requests/(\d+)\<close>
\<close>

definition reStashURL :: re where
  "reStashURL =
     Seq (Grp 1 (Seq (Lit ''http'') (Seq (Opt (Lit ''s'')) (Seq (Lit ''://'')
           (Seq (Star Dot) (Lit ''/''))))))
    (Seq (Grp 2 (Alt (Lit ''users'') (Lit ''projects'')))
    (Seq (Lit ''/'')
    (Seq (Grp 3 (Plus (NotOneOf ''/'')))
    (Seq (Lit ''/repos/'')
    (Seq (Grp 4 (Plus (NotOneOf ''/'')))
    (Seq (Lit ''/pull-requests/'')
         (Grp 5 (Plus Digit))))))))"

section \<open>The server and the remote platform\<close>

text \<open>JSON values, for the bodies the server sends.\<close>

datatype json =
    JString string
  | JNumber int
  | JArray "json list"
  | JObject "(string \<times> json) list"

text \<open>
  The requests the server issues to the remote platform. The platform is an opaque
  collaborator: each kind of request is answered by either an error text or the decoded
  response, and the answer may depend on everything requested before. A member list is
  delivered as the names of its users; a pull request as the name of its author and its
  version, the latter as \<^verbatim>\<open>GetPullRequestInfo\<close> returns it, converted to \<^verbatim>\<open>int64\<close>.
\<close>

datatype api_call =
    GetMoreMembers string
      \<comment> \<open>\<^verbatim>\<open>GET admin/groups/more-members?context=<group>&limit=99999\<close>\<close>
  | GetPullRequest string string string
      \<comment> \<open>\<^verbatim>\<open>GET projects/<project>/repos/<repository>/pull-requests/<id>\<close>\<close>
  | PutPullRequest string string string json
      \<comment> \<open>\<^verbatim>\<open>PUT\<close> to the same resource, with the payload\<close>

record remote =
  more_members :: "api_call list \<Rightarrow> string \<Rightarrow> string + string list"
  pull_request :: "api_call list \<Rightarrow> string \<Rightarrow> string \<Rightarrow> string \<Rightarrow> string + string \<times> 64 word"
  put_pull_request :: "api_call list \<Rightarrow> string \<Rightarrow> string \<Rightarrow> string \<Rightarrow> json \<Rightarrow> string option"

text \<open>The configuration after \<^verbatim>\<open>SetConfig\<close> has checked that every key is present.\<close>

record config =
  listen_address :: string       \<comment> \<open>key \<^verbatim>\<open>listen\<close>\<close>
  stash_host :: string           \<comment> \<open>key \<^verbatim>\<open>stash\<close>\<close>
  stash_user :: string           \<comment> \<open>key \<^verbatim>\<open>user\<close>\<close>
  stash_pass :: string           \<comment> \<open>key \<^verbatim>\<open>pass\<close>\<close>
  intersect_groups :: "string list"  \<comment> \<open>key \<^verbatim>\<open>intersect\<close>\<close>

text \<open>
  \<^verbatim>\<open>SnobServer\<close>: its configuration, its handle on the remote platform and the
  membership cache. \<open>calls\<close> records the requests issued to the platform so far, oldest
  first.
\<close>

record SnobServer =
  config :: config
  api :: remote
  cache :: "string \<rightharpoonup> string list"
  calls :: "api_call list"

definition NewSnobServer :: "config \<Rightarrow> remote \<Rightarrow> SnobServer" where
  "NewSnobServer cfg platform =
     \<lparr>config = cfg, api = platform, cache = Map.empty, calls = []\<rparr>"

text \<open>What is written to the \<^verbatim>\<open>http.ResponseWriter\<close>: the status and the body.\<close>

datatype body = Text string | Json json

record response =
  status :: nat
  body :: body

text \<open>\<^verbatim>\<open>http.Error\<close> writes the status and the message followed by a line feed.\<close>

definition http_Error :: "string \<Rightarrow> nat \<Rightarrow> response" where
  "http_Error msg code = \<lparr>status = code, body = Text (msg @ [CHR 0x0A])\<rparr>"

definition StatusOK :: nat where "StatusOK = 200"
definition StatusBadRequest :: nat where "StatusBadRequest = 400"
definition StatusInternalServerError :: nat where "StatusInternalServerError = 500"

text \<open>
  \<^verbatim>\<open>json.NewEncoder(response).Encode(users)\<close>: status 200 and the array of names. Encoding
  a slice of strings cannot fail, so the handler's error branch after it is never taken.
\<close>

definition encode_users :: "string list \<Rightarrow> response" where
  "encode_users users = \<lparr>status = StatusOK, body = Json (JArray (map JString users))\<rparr>"

subsection \<open>Group resolution\<close>

text \<open>
  \<^verbatim>\<open>GetUsers\<close> returns the pair (names, error) of the source; the error is \<open>None\<close> for
  \<^verbatim>\<open>nil\<close>. An error of the platform is turned into an empty list and \<^verbatim>\<open>nil\<close>.
\<close>

definition GetUsers :: "SnobServer \<Rightarrow> string \<Rightarrow> (string list \<times> string option) \<times> SnobServer" where
  "GetUsers server groupName =
     (let answer = more_members (api server) (calls server) groupName;
          server' = server\<lparr>calls := calls server @ [GetMoreMembers groupName]\<rparr>
      in case answer of
           Inl err \<Rightarrow> (([], None), server')
         | Inr names \<Rightarrow> ((names, None), server'))"

definition handleGetUsers :: "SnobServer \<Rightarrow> string \<Rightarrow> response \<times> SnobServer" where
  "handleGetUsers server usergroup =
     (case cache server usergroup of
        Some users \<Rightarrow> (encode_users users, server)
      | None \<Rightarrow>
          (case GetUsers server usergroup of
             ((users, Some err), server') \<Rightarrow>
               (http_Error err StatusInternalServerError, server')
           | ((users, None), server') \<Rightarrow>
               (encode_users users,
                if length users > 0
                then server'\<lparr>cache := (cache server')(usergroup \<mapsto> users)\<rparr>
                else server')))"

text \<open>The loop of \<^verbatim>\<open>GetUsersIntersection\<close> over the groups to intersect with.\<close>

fun intersect_loop ::
  "SnobServer \<Rightarrow> string list \<Rightarrow> string list \<Rightarrow> (string list \<times> string option) \<times> SnobServer" where
  "intersect_loop server [] intersectUsers = ((intersectUsers, None), server)"
| "intersect_loop server (groupName # groups) intersectUsers =
     (case GetUsers server groupName of
        ((groupUsers, Some err), server') \<Rightarrow> (([], Some err), server')
      | ((groupUsers, None), server') \<Rightarrow>
          intersect_loop server' groups (intersectUsers @ groupUsers))"

definition GetUsersIntersection ::
  "SnobServer \<Rightarrow> string \<Rightarrow> string list \<Rightarrow> (string list \<times> string option) \<times> SnobServer" where
  "GetUsersIntersection server targetGroup intersectGroups =
     (case GetUsers server targetGroup of
        ((targetUsers, Some err), server') \<Rightarrow> (([], Some err), server')
      | ((targetUsers, None), server') \<Rightarrow>
          (case intersect_loop server' intersectGroups [] of
             ((intersectUsers, Some err), server'') \<Rightarrow> (([], Some err), server'')
           | ((intersectUsers, None), server'') \<Rightarrow>
               ((getIntersection targetUsers intersectUsers, None), server'')))"

subsection \<open>Reviewer assignment\<close>

definition reviewer :: "string \<Rightarrow> json" where
  "reviewer name = JObject [(''user'', JObject [(''name'', JString name)])]"

text \<open>The inner loop of \<^verbatim>\<open>getReviewers\<close>, with its \<^verbatim>\<open>break\<close>.\<close>

fun ignore_loop :: "string \<Rightarrow> string list \<Rightarrow> bool" where
  "ignore_loop user [] = False"
| "ignore_loop user (ignoreUser # rest) =
     (if ignoreUser = user then True else ignore_loop user rest)"

fun reviewers_loop :: "string list \<Rightarrow> string list \<Rightarrow> json list \<Rightarrow> json list" where
  "reviewers_loop [] ignoreUsers reviewers = reviewers"
| "reviewers_loop (user # users) ignoreUsers reviewers =
     (if ignore_loop user ignoreUsers
      then reviewers_loop users ignoreUsers reviewers
      else reviewers_loop users ignoreUsers (reviewers @ [reviewer user]))"

definition getReviewers :: "string list \<Rightarrow> string list \<Rightarrow> json list" where
  "getReviewers users ignoreUsers = reviewers_loop users ignoreUsers []"

definition GetPullRequestInfo ::
  "SnobServer \<Rightarrow> string \<Rightarrow> string \<Rightarrow> string \<Rightarrow> (string \<times> 64 word \<times> string option) \<times> SnobServer" where
  "GetPullRequestInfo server project repository pullRequest =
     (let answer = pull_request (api server) (calls server) project repository pullRequest;
          server' = server\<lparr>calls := calls server @ [GetPullRequest project repository pullRequest]\<rparr>
      in case answer of
           Inl err \<Rightarrow> (([], 0, Some err), server')
         | Inr (author, version) \<Rightarrow> ((author, version, None), server'))"

text \<open>The payload of the update, a map in the source; its keys are sorted when it is encoded.\<close>

definition update_payload :: "string \<Rightarrow> 64 word \<Rightarrow> json list \<Rightarrow> json" where
  "update_payload pullRequest version reviewers =
     JObject [(''id'', JString pullRequest),
              (''reviewers'', JArray reviewers),
              (''version'', JNumber (sint version))]"

definition AddReviewers ::
  "SnobServer \<Rightarrow> string \<Rightarrow> string \<Rightarrow> string \<Rightarrow> string list \<Rightarrow> string option \<times> SnobServer" where
  "AddReviewers server project repository pullRequest users =
     (case GetPullRequestInfo server project repository pullRequest of
        ((author, version, Some err), server') \<Rightarrow> (Some err, server')
      | ((author, version, None), server') \<Rightarrow>
          (let stashUser = stash_user (config server');
               reviewers = getReviewers users [author, stashUser];
               payload = update_payload pullRequest version reviewers
           in (put_pull_request (api server') (calls server') project repository pullRequest payload,
               server'\<lparr>calls := calls server'
                          @ [PutPullRequest project repository pullRequest payload]\<rparr>)))"

subsection \<open>The handlers\<close>

definition success_body :: string where
  "success_body = ''{'' @ [CHR 0x22] @ ''success'' @ [CHR 0x22] @ '':true}''"

definition handleAddReviewers :: "SnobServer \<Rightarrow> string \<Rightarrow> string \<Rightarrow> response \<times> SnobServer" where
  "handleAddReviewers server usergroup pullRequestURL =
     (let intersectGroups = intersect_groups (config server) in
      case GetUsersIntersection server usergroup intersectGroups of
        ((users, Some err), server') \<Rightarrow> (http_Error err StatusBadRequest, server')
      | ((users, None), server') \<Rightarrow>
          (let matches = FindStringSubmatch reStashURL pullRequestURL in
           if length matches = 0
           then (http_Error ''wrong url'' StatusBadRequest, server')
           else
             (let project = matches ! 3;
                  repository = matches ! 4;
                  pullRequest = matches ! 5
              in case AddReviewers server' project repository pullRequest users of
                   (Some err, server'') \<Rightarrow>
                     (http_Error err StatusInternalServerError, server'')
                 | (None, server'') \<Rightarrow> (http_Error success_body StatusOK, server''))))"

definition usage_hint :: string where
  "usage_hint = ''%group%(/%pull-request%)?''"

definition ServeHTTP :: "SnobServer \<Rightarrow> string \<Rightarrow> response \<times> SnobServer" where
  "ServeHTTP server path =
     (let uriParts = SplitN (Trim path ''/'') ''/'' 2 in
      if length uriParts = 2 then handleAddReviewers server (uriParts ! 0) (uriParts ! 1)
      else if length uriParts = 1 then handleGetUsers server (uriParts ! 0)
      else (http_Error usage_hint StatusBadRequest, server))"

text \<open>
  The server after a list of requests when no two of them overlap: each request is
  handled to its end before the next one arrives. This is one of the schedules of the
  concurrent server below (lemma \<open>serve_requests_schedule\<close>), not the only one.
\<close>

fun serve_requests :: "SnobServer \<Rightarrow> string list \<Rightarrow> SnobServer" where
  "serve_requests server [] = server"
| "serve_requests server (path # paths) = serve_requests (snd (ServeHTTP server path)) paths"

section \<open>Requests handled concurrently\<close>

text \<open>
  \<^verbatim>\<open>ListenHTTP\<close> hands the server to \<^verbatim>\<open>http.Server\<close>, which runs \<^verbatim>\<open>ServeHTTP\<close> in a
  goroutine of its own for every connection, and \<^verbatim>\<open>cache\<close> is a map shared by all of
  them with no lock. A handler can therefore be overtaken by another one wherever it
  waits for the platform. A request in flight is modelled by the point its handler has
  reached, with the local variables that are live there:

  \<^item> \<open>AtLookup\<close>: \<^verbatim>\<open>handleGetUsers\<close> before \<^verbatim>\<open>users, ok := cache[usergroup]\<close>;
  \<^item> \<open>AtFetch\<close>: the lookup has missed, before \<^verbatim>\<open>server.GetUsers(usergroup)\<close>;
  \<^item> \<open>AtStore\<close>: \<^verbatim>\<open>GetUsers\<close> has returned \<open>users\<close>, before
    \<^verbatim>\<open>if len(users) > 0 { cache[usergroup] = users }\<close> and the response;
  \<^item> \<open>AtTarget\<close>: \<^verbatim>\<open>handleAddReviewers\<close> before \<^verbatim>\<open>GetUsersIntersection\<close> requests the
    members of the target group;
  \<^item> \<open>AtGroups\<close>: inside the loop of \<^verbatim>\<open>GetUsersIntersection\<close>, with the target users,
    the groups still to request and the users collected so far;
  \<^item> \<open>AtPullRequestInfo\<close>: the URL has matched, before \<^verbatim>\<open>GetPullRequestInfo\<close>;
  \<^item> \<open>AtPut\<close>: the payload is built, before the \<^verbatim>\<open>PUT\<close>;
  \<^item> \<open>Responded\<close>: the handler has written its response and returned.

  The last argument of \<open>AtTarget\<close> and \<open>AtGroups\<close> is the pull-request URL of the request.
\<close>

datatype request =
    AtLookup string
  | AtFetch string
  | AtStore string "string list"
  | AtTarget string string
  | AtGroups "string list" "string list" "string list" string
  | AtPullRequestInfo string string string "string list"
  | AtPut string string string json
  | Responded response

text \<open>
  One step of one handler: the code between two of these points, which contains at most
  one request to the platform. The steps are the statements of \<^verbatim>\<open>handleGetUsers\<close>,
  \<^verbatim>\<open>GetUsersIntersection\<close>, \<^verbatim>\<open>handleAddReviewers\<close> and \<^verbatim>\<open>AddReviewers\<close> in their
  order; run without interruption they are these functions (lemmas
  \<open>run_alone_lookup\<close>, \<open>run_alone_target\<close>, \<open>run_alone_ServeHTTP\<close>). Steps are atomic:
  what the Go runtime does when two goroutines touch the map at the same instant is not
  modelled.
\<close>

fun step_request :: "SnobServer \<Rightarrow> request \<Rightarrow> request \<times> SnobServer" where
  "step_request server (AtLookup usergroup) =
     (case cache server usergroup of
        Some users \<Rightarrow> (Responded (encode_users users), server)
      | None \<Rightarrow> (AtFetch usergroup, server))"
| "step_request server (AtFetch usergroup) =
     (case GetUsers server usergroup of
        ((users, Some err), server') \<Rightarrow>
          (Responded (http_Error err StatusInternalServerError), server')
      | ((users, None), server') \<Rightarrow> (AtStore usergroup users, server'))"
| "step_request server (AtStore usergroup users) =
     (Responded (encode_users users),
      if length users > 0
      then server\<lparr>cache := (cache server)(usergroup \<mapsto> users)\<rparr>
      else server)"
| "step_request server (AtTarget usergroup pullRequestURL) =
     (case GetUsers server usergroup of
        ((targetUsers, Some err), server') \<Rightarrow>
          (Responded (http_Error err StatusBadRequest), server')
      | ((targetUsers, None), server') \<Rightarrow>
          (AtGroups targetUsers (intersect_groups (config server)) [] pullRequestURL, server'))"
| "step_request server (AtGroups targetUsers (groupName # groups) intersectUsers pullRequestURL) =
     (case GetUsers server groupName of
        ((groupUsers, Some err), server') \<Rightarrow>
          (Responded (http_Error err StatusBadRequest), server')
      | ((groupUsers, None), server') \<Rightarrow>
          (AtGroups targetUsers groups (intersectUsers @ groupUsers) pullRequestURL, server'))"
| "step_request server (AtGroups targetUsers [] intersectUsers pullRequestURL) =
     (let users = getIntersection targetUsers intersectUsers;
          matches = FindStringSubmatch reStashURL pullRequestURL
      in if length matches = 0
         then (Responded (http_Error ''wrong url'' StatusBadRequest), server)
         else (AtPullRequestInfo (matches ! 3) (matches ! 4) (matches ! 5) users, server))"
| "step_request server (AtPullRequestInfo project repository pullRequest users) =
     (case GetPullRequestInfo server project repository pullRequest of
        ((author, version, Some err), server') \<Rightarrow>
          (Responded (http_Error err StatusInternalServerError), server')
      | ((author, version, None), server') \<Rightarrow>
          (let stashUser = stash_user (config server');
               reviewers = getReviewers users [author, stashUser];
               payload = update_payload pullRequest version reviewers
           in (AtPut project repository pullRequest payload, server')))"
| "step_request server (AtPut project repository pullRequest payload) =
     (case put_pull_request (api server) (calls server) project repository pullRequest payload of
        Some err \<Rightarrow>
          (Responded (http_Error err StatusInternalServerError),
           server\<lparr>calls := calls server @ [PutPullRequest project repository pullRequest payload]\<rparr>)
      | None \<Rightarrow>
          (Responded (http_Error success_body StatusOK),
           server\<lparr>calls := calls server @ [PutPullRequest project repository pullRequest payload]\<rparr>))"
| "step_request server (Responded r) = (Responded r, server)"

text \<open>The switch of \<^verbatim>\<open>ServeHTTP\<close>: the point at which a request for \<open>path\<close> starts.\<close>

definition dispatch :: "string \<Rightarrow> request" where
  "dispatch path =
     (let uriParts = SplitN (Trim path ''/'') ''/'' 2 in
      if length uriParts = 2 then AtTarget (uriParts ! 0) (uriParts ! 1)
      else if length uriParts = 1 then AtLookup (uriParts ! 0)
      else Responded (http_Error usage_hint StatusBadRequest))"

text \<open>
  The running server is its state together with the requests accepted so far, in the
  order of their arrival. Two things happen to it: a request arrives, or the handler of
  the request number \<open>i\<close> takes its next step. A list of such events is a schedule;
  every interleaving of the handlers is one.
\<close>

datatype event = Arrive string | Step nat

fun run_event :: "event \<Rightarrow> SnobServer \<times> request list \<Rightarrow> SnobServer \<times> request list" where
  "run_event (Arrive path) (server, reqs) = (server, reqs @ [dispatch path])"
| "run_event (Step i) (server, reqs) =
     (if i < length reqs
      then (case step_request server (reqs ! i) of (r, server') \<Rightarrow> (server', reqs[i := r]))
      else (server, reqs))"

fun run_events :: "event list \<Rightarrow> SnobServer \<times> request list \<Rightarrow> SnobServer \<times> request list" where
  "run_events [] sys = sys"
| "run_events (e # es) sys = run_events es (run_event e sys)"

text \<open>\<open>n\<close> steps of one request with no other handler running.\<close>

fun run_alone :: "nat \<Rightarrow> SnobServer \<Rightarrow> request \<Rightarrow> request \<times> SnobServer" where
  "run_alone 0 server r = (r, server)"
| "run_alone (Suc n) server r =
     (case step_request server r of (r', server') \<Rightarrow> run_alone n server' r')"

text \<open>
  The schedule without overlap: each request arrives as number \<open>k\<close>, \<open>k + 1\<close>, ... and
  takes \<open>n\<close> steps before the next one arrives.
\<close>

fun one_after_another :: "nat \<Rightarrow> nat \<Rightarrow> string list \<Rightarrow> event list" where
  "one_after_another n k [] = []"
| "one_after_another n k (path # paths) =
     Arrive path # replicate n (Step k) @ one_after_another n (Suc k) paths"


section \<open>The pull-request URL parser\<close>

text \<open>
  The handler has no parsing function of its own: it matches the pattern and reads the
  groups 3, 4 and 5 of the result. \<open>parse_pull_request_url\<close> is that fragment of
  \<^verbatim>\<open>handleAddReviewers\<close> alone, returning the specification's pull-request reference or
  its \<open>InvalidURL\<close> error (which the handler reports as 400 with the text \<open>wrong url\<close>).
\<close>

datatype parse_error = InvalidURL

record pull_request_ref =
  ref_project :: string
  ref_repository :: string
  ref_id :: string

definition parse_pull_request_url :: "string \<Rightarrow> parse_error + pull_request_ref" where
  "parse_pull_request_url pullRequestURL =
     (let matches = FindStringSubmatch reStashURL pullRequestURL in
      if length matches = 0 then Inl InvalidURL
      else Inr \<lparr>ref_project = matches ! 3, ref_repository = matches ! 4, ref_id = matches ! 5\<rparr>)"

text \<open>
  What it means for a pattern to match a whole text, with the groups captured on the
  way. This is the declarative reading of a pattern, independent of the matcher's search
  order; the matcher is compared with it below.
\<close>

primrec matches :: "re \<Rightarrow> string \<Rightarrow> captures \<Rightarrow> bool" where
  "matches (Lit l) w caps = (w = l \<and> caps = [])"
| "matches (Opt r) w caps = ((w = [] \<and> caps = []) \<or> matches r w caps)"
| "matches (Star c) w caps = (list_all (cmatch c) w \<and> caps = [])"
| "matches (Plus c) w caps = (w \<noteq> [] \<and> list_all (cmatch c) w \<and> caps = [])"
| "matches (Alt a b) w caps = (matches a w caps \<or> matches b w caps)"
| "matches (Seq a b) w caps =
     (\<exists>u v c1 c2. w = u @ v \<and> caps = c1 @ c2 \<and> matches a u c1 \<and> matches b v c2)"
| "matches (Grp i r) w caps = (\<exists>c. caps = (i, w) # c \<and> matches r w c)"

text \<open>
  The texts the pattern of \<^verbatim>\<open>main.go\<close> describes, written out: a scheme \<open>http\<close> or
  \<open>https\<close>, \<open>://\<close>, any text without a line feed, then
  \<open>/(users|projects)/<name>/repos/<repo>/pull-requests/<digits>\<close>, where name and
  repository are non-empty and free of slashes and the digits are one or more ASCII
  digits.
\<close>

definition pull_request_url ::
  "string \<Rightarrow> string \<Rightarrow> string \<Rightarrow> string \<Rightarrow> string \<Rightarrow> string \<Rightarrow> string" where
  "pull_request_url scheme host_path kind name repo digits =
     scheme @ ''://'' @ host_path @ ''/'' @ kind @ ''/'' @ name @ ''/repos/'' @ repo
       @ ''/pull-requests/'' @ digits"

definition url_parts_ok ::
  "string \<Rightarrow> string \<Rightarrow> string \<Rightarrow> string \<Rightarrow> string \<Rightarrow> string \<Rightarrow> bool" where
  "url_parts_ok scheme host_path kind name repo digits =
     ((scheme = ''http'' \<or> scheme = ''https'')
      \<and> CHR 0x0A \<notin> set host_path
      \<and> (kind = ''users'' \<or> kind = ''projects'')
      \<and> name \<noteq> [] \<and> CHR ''/'' \<notin> set name
      \<and> repo \<noteq> [] \<and> CHR ''/'' \<notin> set repo
      \<and> digits \<noteq> [] \<and> set digits \<subseteq> set ''0123456789'')"

text \<open>
  A text contains a pull-request URL when some part of it has that shape: this is what
  it means that the pattern matches somewhere.
\<close>

definition contains_pull_request_url :: "string \<Rightarrow> bool" where
  "contains_pull_request_url url =
     (\<exists>pre scheme host_path kind name repo digits rest.
        url = pre @ pull_request_url scheme host_path kind name repo digits @ rest
        \<and> url_parts_ok scheme host_path kind name repo digits)"

text \<open>
  The two halves of the pattern, named for the proofs: everything up to the slash that
  closes the first group, and everything after it.
\<close>

definition stash_url_head :: re where
  "stash_url_head =
     Grp 1 (Seq (Lit ''http'') (Seq (Opt (Lit ''s'')) (Seq (Lit ''://'')
           (Seq (Star Dot) (Lit ''/'')))))"

definition stash_url_tail :: re where
  "stash_url_tail =
     Seq (Grp 2 (Alt (Lit ''users'') (Lit ''projects'')))
    (Seq (Lit ''/'')
    (Seq (Grp 3 (Plus (NotOneOf ''/'')))
    (Seq (Lit ''/repos/'')
    (Seq (Grp 4 (Plus (NotOneOf ''/'')))
    (Seq (Lit ''/pull-requests/'')
         (Grp 5 (Plus Digit)))))))"

section \<open>Path segments, as the specification counts them\<close>

text \<open>
  The specification describes the router by the number of segments of the request path.
  This definition follows its words and is not part of the program: the segments of a
  path are the non-empty pieces between its slashes, so \<open>/\<close> has none, \<open>/teamX\<close> has
  one and \<open>/a/b/c\<close> has three.
\<close>

fun split_path :: "string \<Rightarrow> string list" where
  "split_path [] = [[]]"
| "split_path (c # cs) =
     (if c = CHR ''/'' then [] # split_path cs
      else (case split_path cs of [] \<Rightarrow> [[c]] | p # ps \<Rightarrow> (c # p) # ps))"

definition segments :: "string \<Rightarrow> string list" where
  "segments path = filter (\<lambda>p. p \<noteq> []) (split_path path)"

section \<open>A concrete platform and server, for the examples\<close>

text \<open>
  A platform whose group \<open>team\<close> has three members when first asked and a different
  membership afterwards, whose group \<open>ghost\<close> cannot be fetched, and whose other groups
  are empty. Every pull request is by \<open>bob\<close> at version 7, and every update succeeds.
\<close>

definition example_platform :: remote where
  "example_platform =
     \<lparr>more_members = (\<lambda>history g.
          if g = ''team''
          then Inr (if GetMoreMembers ''team'' \<in> set history
                    then [''carol''] else [''alice'', ''bob'', ''svc''])
          else if g = ''ghost'' then Inl ''unreachable'' else Inr []),
      pull_request = (\<lambda>history p r i. Inr (''bob'', 7)),
      put_pull_request = (\<lambda>history p r i payload. None)\<rparr>"

definition example_config :: config where
  "example_config =
     \<lparr>listen_address = '':8080'', stash_host = ''stash.local'', stash_user = ''svc'',
      stash_pass = ''secret'', intersect_groups = []\<rparr>"

definition example_server :: SnobServer where
  "example_server = NewSnobServer example_config example_platform"

definition example_url :: string where
  "example_url = ''https://host/path/projects/FOO/repos/bar/pull-requests/42''"

text \<open>The example URL without its \<open>pull-requests/<digits>\<close> suffix.\<close>

definition missing_suffix_url :: string where
  "missing_suffix_url = ''https://host/path/projects/FOO/repos/bar''"

section \<open>Facts about the intersection engine\<close>

lemma exists_loop_iff: "exists_loop x ys = (x \<in> set ys)"
  by (induction ys) auto

lemma other_loop_eq:
  "other_loop x other acc =
     (if x \<in> set other \<and> x \<notin> set acc then acc @ [x] else acc)"
  by (induction other arbitrary: acc) (auto simp: exists_loop_iff)

lemma original_loop_spec:
  "original_loop original other acc = intersect_spec original other acc"
  by (induction original arbitrary: acc) (simp_all add: other_loop_eq)

lemma first_occurrences_Cons:
  "first_occurrences (x # xs) = x # filter (\<lambda>y. y \<noteq> x) (first_occurrences xs)"
proof -
  have "remdups (ys @ [x]) = filter (\<lambda>y. y \<noteq> x) (remdups ys) @ [x]" for ys :: "'a list"
    by (induction ys) auto
  then show ?thesis
    by (simp add: first_occurrences_def rev_filter)
qed

lemma first_occurrences_Nil: "first_occurrences [] = []"
  by (simp add: first_occurrences_def)

lemma set_first_occurrences: "set (first_occurrences xs) = set xs"
  by (simp add: first_occurrences_def)

lemma distinct_first_occurrences: "distinct (first_occurrences xs)"
  by (simp add: first_occurrences_def)

lemma intersect_spec_first_occurrences:
  "intersect_spec target others included =
     included @ filter (\<lambda>u. u \<notin> set included)
                  (first_occurrences (filter (\<lambda>u. u \<in> set others) target))"
proof (induction target arbitrary: included)
  case Nil
  show ?case by (simp add: first_occurrences_Nil)
next
  case (Cons u target)
  show ?case
  proof (cases "u \<in> set others \<and> u \<notin> set included")
    case True
    have "filter (\<lambda>v. v \<notin> set (included @ [u])) ys
            = filter (\<lambda>v. v \<notin> set included) (filter (\<lambda>y. y \<noteq> u) ys)" for ys
      by (induction ys) auto
    with True show ?thesis
      by (simp add: Cons.IH first_occurrences_Cons)
  next
    case False
    have "filter (\<lambda>v. v \<notin> set included) (filter (\<lambda>y. y \<noteq> u) ys)
            = filter (\<lambda>v. v \<notin> set included) ys" if "u \<in> set included" for ys
      using that by (induction ys) auto
    with False show ?thesis
      by (auto simp: Cons.IH first_occurrences_Cons)
  qed
qed

lemma getIntersection_first_occurrences:
  "getIntersection target others =
     first_occurrences (filter (\<lambda>u. u \<in> set others) target)"
  by (simp add: getIntersection_def original_loop_spec intersect_spec_first_occurrences)

text \<open>
  C4. For every pair of user lists, \<^verbatim>\<open>getIntersection\<close> returns the users of the target
  that appear anywhere in the others, in the order of their first occurrence in the
  target, each at most once: it computes what the specification's walk computes, its
  result is the target filtered by membership in the others with only first occurrences
  kept, it has no duplicate, and its elements are exactly the users in both lists. On
  \<open>["a","b","a","c"]\<close> and \<open>["a","c"]\<close> it returns \<open>["a","c"]\<close>.
\<close>

theorem getIntersection_ordered_dedup:
  "getIntersection target others = intersect_spec target others []
   \<and> getIntersection target others
       = first_occurrences (filter (\<lambda>u. u \<in> set others) target)
   \<and> distinct (getIntersection target others)
   \<and> set (getIntersection target others) = set target \<inter> set others
   \<and> getIntersection [''a'', ''b'', ''a'', ''c''] [''a'', ''c''] = [''a'', ''c'']"
proof -
  have "getIntersection [''a'', ''b'', ''a'', ''c''] [''a'', ''c''] = [''a'', ''c'']"
    by (simp add: getIntersection_def)
  moreover have "set (getIntersection target others) = set target \<inter> set others"
    by (auto simp: getIntersection_first_occurrences set_first_occurrences)
  ultimately show ?thesis
    by (simp add: getIntersection_first_occurrences distinct_first_occurrences
        intersect_spec_first_occurrences)
qed

text \<open>
  C5. With an empty list of others the intersection is empty, whatever the target: the
  loop over \<^verbatim>\<open>other\<close> never runs, so nothing is ever appended.
\<close>

theorem getIntersection_empty_others:
  "getIntersection target [] = []"
  by (simp add: getIntersection_first_occurrences first_occurrences_Nil)

section \<open>Facts about group resolution and reviewer assignment\<close>

lemma GetUsers_result:
  "GetUsers server g =
     (((case more_members (api server) (calls server) g of Inl err \<Rightarrow> [] | Inr names \<Rightarrow> names), None),
      server\<lparr>calls := calls server @ [GetMoreMembers g]\<rparr>)"
  by (simp add: GetUsers_def Let_def split: sum.splits)

lemma intersect_loop_result:
  "\<exists>us new. intersect_loop server groups acc
      = ((us, None), server\<lparr>calls := calls server @ new\<rparr>)
     \<and> (\<forall>p r i payload. PutPullRequest p r i payload \<notin> set new)
     \<and> (groups = [] \<longrightarrow> us = acc \<and> new = [])"
proof (induction groups arbitrary: server acc)
  case Nil
  have "server = server\<lparr>calls := calls server @ []\<rparr>" by simp
  then show ?case by (metis intersect_loop.simps(1) empty_iff list.set(1))
next
  case (Cons g groups)
  let ?s = "server\<lparr>calls := calls server @ [GetMoreMembers g]\<rparr>"
  let ?us = "case more_members (api server) (calls server) g of Inl err \<Rightarrow> [] | Inr names \<Rightarrow> names"
  obtain us new where h: "intersect_loop ?s groups (acc @ ?us) = ((us, None), ?s\<lparr>calls := calls ?s @ new\<rparr>)"
     "\<forall>p r i payload. PutPullRequest p r i payload \<notin> set new"
    using Cons.IH[of ?s "acc @ ?us"] by blast
  have "intersect_loop server (g # groups) acc = ((us, None), server\<lparr>calls := calls server @ (GetMoreMembers g # new)\<rparr>)"
    using h(1) by (simp add: GetUsers_result)
  with h(2) show ?case by (intro exI[of _ us] exI[of _ "GetMoreMembers g # new"]) simp
qed

lemma GetUsersIntersection_result:
  "\<exists>us new. GetUsersIntersection server g groups
      = ((us, None), server\<lparr>calls := calls server @ GetMoreMembers g # new\<rparr>)
     \<and> (\<forall>p r i payload. PutPullRequest p r i payload \<notin> set new)
     \<and> (groups = [] \<longrightarrow> us = [] \<and> new = [])"
proof -
  let ?s = "server\<lparr>calls := calls server @ [GetMoreMembers g]\<rparr>"
  let ?t = "case more_members (api server) (calls server) g of Inl err \<Rightarrow> [] | Inr names \<Rightarrow> names"
  obtain us new where h: "intersect_loop ?s groups [] = ((us, None), ?s\<lparr>calls := calls ?s @ new\<rparr>)"
     "\<forall>p r i payload. PutPullRequest p r i payload \<notin> set new" "groups = [] \<longrightarrow> us = [] \<and> new = []"
    using intersect_loop_result[of ?s groups "[]"] by blast
  have "GetUsersIntersection server g groups = ((getIntersection ?t us, None), server\<lparr>calls := calls server @ GetMoreMembers g # new\<rparr>)"
    using h(1) by (simp add: GetUsersIntersection_def GetUsers_result)
  moreover have "groups = [] \<longrightarrow> getIntersection ?t us = [] \<and> new = []"
    using h(3) by (auto simp: getIntersection_first_occurrences first_occurrences_Nil)
  ultimately show ?thesis using h(2) by blast
qed


lemma ignore_loop_iff: "ignore_loop u ignoreUsers = (u \<in> set ignoreUsers)"
  by (induction ignoreUsers) auto

lemma reviewers_loop_eq:
  "reviewers_loop users ignoreUsers acc
     = acc @ map reviewer (filter (\<lambda>u. u \<notin> set ignoreUsers) users)"
  by (induction users arbitrary: acc) (simp_all add: ignore_loop_iff)

lemma getReviewers_eq:
  "getReviewers users ignoreUsers = map reviewer (filter (\<lambda>u. u \<notin> set ignoreUsers) users)"
  by (simp add: getReviewers_def reviewers_loop_eq)

lemma GetPullRequestInfo_result:
  "GetPullRequestInfo server p r i =
     ((case pull_request (api server) (calls server) p r i of
         Inl err \<Rightarrow> ([], 0, Some err) | Inr (author, version) \<Rightarrow> (author, version, None)),
      server\<lparr>calls := calls server @ [GetPullRequest p r i]\<rparr>)"
  by (simp add: GetPullRequestInfo_def Let_def split: sum.splits prod.splits)

lemma AddReviewers_result:
  "AddReviewers server p r i users =
     (case pull_request (api server) (calls server) p r i of
        Inl err \<Rightarrow> (Some err, server\<lparr>calls := calls server @ [GetPullRequest p r i]\<rparr>)
      | Inr (author, version) \<Rightarrow>
          (put_pull_request (api server) (calls server @ [GetPullRequest p r i]) p r i
             (update_payload i version
                (map reviewer (filter (\<lambda>u. u \<noteq> author \<and> u \<noteq> stash_user (config server)) users))),
           server\<lparr>calls := calls server @
              [GetPullRequest p r i,
               PutPullRequest p r i (update_payload i version
                 (map reviewer (filter (\<lambda>u. u \<noteq> author \<and> u \<noteq> stash_user (config server)) users)))]\<rparr>))"
  by (simp add: AddReviewers_def GetPullRequestInfo_result getReviewers_eq Let_def
           split: sum.splits prod.splits)

lemma handleAddReviewers_calls:
  "\<exists>new. snd (handleAddReviewers server g url) = server\<lparr>calls := calls server @ new\<rparr>
     \<and> (intersect_groups (config server) = [] \<longrightarrow>
          (\<forall>p r i payload. PutPullRequest p r i payload \<in> set new
             \<longrightarrow> (\<exists>v. payload = update_payload i v [])))"
proof -
  let ?groups = "intersect_groups (config server)"
  obtain us new where h:
    "GetUsersIntersection server g ?groups
       = ((us, None), server\<lparr>calls := calls server @ GetMoreMembers g # new\<rparr>)"
    "\<forall>p r i payload. PutPullRequest p r i payload \<notin> set new"
    "?groups = [] \<longrightarrow> us = [] \<and> new = []"
    using GetUsersIntersection_result[of server g ?groups] by blast
  let ?s = "server\<lparr>calls := calls server @ GetMoreMembers g # new\<rparr>"
  let ?m = "FindStringSubmatch reStashURL url"
  show ?thesis
  proof (cases "length ?m = 0")
    case True
    then have "snd (handleAddReviewers server g url) = ?s"
      using h(1) by (simp add: handleAddReviewers_def)
    with h(2) show ?thesis by (intro exI[of _ "GetMoreMembers g # new"]) simp
  next
    case False
    let ?p = "?m ! 3" and ?r = "?m ! 4" and ?i = "?m ! 5"
    have step: "snd (handleAddReviewers server g url) = snd (AddReviewers ?s ?p ?r ?i us)"
      using h(1) False by (simp add: handleAddReviewers_def Let_def split: prod.splits option.splits)
    show ?thesis
    proof (cases "pull_request (api ?s) (calls ?s) ?p ?r ?i")
      case (Inl err)
      then have "snd (handleAddReviewers server g url)
                  = server\<lparr>calls := calls server @ (GetMoreMembers g # new @ [GetPullRequest ?p ?r ?i])\<rparr>"
        by (simp add: step AddReviewers_result)
      with h(2) show ?thesis
        by (intro exI[of _ "GetMoreMembers g # new @ [GetPullRequest ?p ?r ?i]"]) simp
    next
      case (Inr av)
      obtain author version where av: "av = (author, version)" by (cases av)
      let ?pl = "update_payload ?i version
                   (map reviewer (filter (\<lambda>u. u \<noteq> author \<and> u \<noteq> stash_user (config server)) us))"
      have "snd (handleAddReviewers server g url)
              = server\<lparr>calls := calls server @
                   (GetMoreMembers g # new @ [GetPullRequest ?p ?r ?i, PutPullRequest ?p ?r ?i ?pl])\<rparr>"
        using Inr av by (simp add: step AddReviewers_result)
      moreover have "?groups = [] \<longrightarrow> ?pl = update_payload ?i version []"
        using h(3) by simp
      ultimately show ?thesis using h(2)
        by (intro exI[of _ "GetMoreMembers g # new @ [GetPullRequest ?p ?r ?i, PutPullRequest ?p ?r ?i ?pl]"])
           auto
    qed
  qed
qed

lemma handleAddReviewers_cache: "cache (snd (handleAddReviewers server g url)) = cache server"
  using handleAddReviewers_calls[of server g url] by auto

lemma handleGetUsers_hit:
  "cache server g = Some users \<Longrightarrow> handleGetUsers server g = (encode_users users, server)"
  by (simp add: handleGetUsers_def)

lemma handleGetUsers_miss:
  "cache server g = None \<Longrightarrow>
     handleGetUsers server g =
       (let users = (case more_members (api server) (calls server) g of Inl err \<Rightarrow> [] | Inr names \<Rightarrow> names);
            server' = server\<lparr>calls := calls server @ [GetMoreMembers g]\<rparr>
        in (encode_users users,
            if users = [] then server' else server'\<lparr>cache := (cache server)(g \<mapsto> users)\<rparr>))"
  by (simp add: handleGetUsers_def GetUsers_result Let_def)

lemma handleGetUsers_cache:
  "cache (snd (handleGetUsers server g)) = cache server
   \<or> (cache server g = None \<and> (\<exists>users. users \<noteq> [] \<and>
         cache (snd (handleGetUsers server g)) = (cache server)(g \<mapsto> users)))"
  by (cases "cache server g") (auto simp: handleGetUsers_hit handleGetUsers_miss Let_def)

lemma SplitN_2:
  "SplitN s sep 2 =
     (case Index s sep of None \<Rightarrow> [s] | Some m \<Rightarrow> [take m s, drop (m + length sep) s])"
  by (simp add: numeral_2_eq_2 split: option.splits)

lemma ServeHTTP_dispatch:
  "ServeHTTP server path =
     (case Index (Trim path ''/'') ''/'' of
        None \<Rightarrow> handleGetUsers server (Trim path ''/'')
      | Some m \<Rightarrow> handleAddReviewers server (take m (Trim path ''/'')) (drop (Suc m) (Trim path ''/'')))"
  by (simp add: ServeHTTP_def SplitN_2 split: option.splits)

lemma ServeHTTP_cache:
  "cache (snd (ServeHTTP server path)) = cache server
   \<or> (\<exists>g users. cache server g = None \<and> users \<noteq> [] \<and>
         cache (snd (ServeHTTP server path)) = (cache server)(g \<mapsto> users))"
proof (cases "Index (Trim path ''/'') ''/''")
  case None
  then show ?thesis
    using handleGetUsers_cache[of server "Trim path ''/''"] by (auto simp: ServeHTTP_dispatch)
next
  case (Some m)
  then show ?thesis by (simp add: ServeHTTP_dispatch handleAddReviewers_cache)
qed

lemma ServeHTTP_keeps: "cache server k = Some v \<Longrightarrow> cache (snd (ServeHTTP server path)) k = Some v"
  using ServeHTTP_cache[of server path] by auto

lemma serve_requests_keeps:
  "cache server k = Some v \<Longrightarrow> cache (serve_requests server paths) k = Some v"
  by (induction paths arbitrary: server) (simp_all add: ServeHTTP_keeps)

lemma encode_users_inj: "encode_users us = encode_users vs \<Longrightarrow> us = vs"
proof -
  have "inj JString" by (simp add: inj_def)
  then show "encode_users us = encode_users vs \<Longrightarrow> us = vs"
    by (simp add: encode_users_def inj_map_eq_map)
qed

lemma handleGetUsers_response:
  "fst (handleGetUsers server g) = encode_users users \<Longrightarrow> users \<noteq> [] \<Longrightarrow>
     cache (snd (handleGetUsers server g)) g = Some users"
proof (cases "cache server g")
  case None
  assume "fst (handleGetUsers server g) = encode_users users" "users \<noteq> []"
  with None show ?thesis
    by (auto simp: handleGetUsers_miss Let_def dest!: encode_users_inj split: if_splits)
next
  case (Some us)
  assume "fst (handleGetUsers server g) = encode_users users" "users \<noteq> []"
  with Some show ?thesis
    by (auto simp: handleGetUsers_hit dest!: encode_users_inj)
qed

section \<open>Facts about requests handled concurrently\<close>

text \<open>
  A handler that runs without interruption is the function of the sequential model: three
  steps from the lookup are \<^verbatim>\<open>handleGetUsers\<close>, and the steps from the target group
  are \<^verbatim>\<open>handleAddReviewers\<close>. Once a request has responded, further steps change
  nothing, so any larger number of steps gives the same result.
\<close>

lemma run_alone_Responded: "run_alone n server (Responded r) = (Responded r, server)"
  by (induction n) simp_all

lemma run_alone_add:
  "run_alone (m + n) server r = (case run_alone m server r of (r', server') \<Rightarrow> run_alone n server' r')"
  by (induction m arbitrary: server r) (simp_all split: prod.splits)

lemma run_alone_lookup:
  "run_alone (3 + n) server (AtLookup g) = (Responded (fst (handleGetUsers server g)), snd (handleGetUsers server g))"
  by (cases "cache server g")
     (simp_all add: numeral_3_eq_3 handleGetUsers_def GetUsers_result run_alone_Responded)

lemma run_alone_groups:
  "intersect_loop server groups acc = ((us, None), server') \<Longrightarrow>
   run_alone (length groups + n) server (AtGroups t groups acc url)
     = run_alone n server' (AtGroups t [] us url)"
  by (induction groups arbitrary: server acc) (simp_all add: GetUsers_result)

lemma run_alone_put:
  "run_alone (Suc (Suc n)) server (AtPullRequestInfo p r i users)
     = (Responded (case fst (AddReviewers server p r i users) of
                     Some err \<Rightarrow> http_Error err StatusInternalServerError
                   | None \<Rightarrow> http_Error success_body StatusOK),
        snd (AddReviewers server p r i users))"
  by (cases "pull_request (api server) (calls server) p r i")
     (auto simp: AddReviewers_def GetPullRequestInfo_result Let_def run_alone_Responded
           split: option.splits prod.splits)

lemma run_alone_target:
  assumes "intersect_groups (config server) = groups"
  shows "run_alone (length groups + 4 + n) server (AtTarget g url)
           = (Responded (fst (handleAddReviewers server g url)), snd (handleAddReviewers server g url))"
proof -
  let ?s = "server\<lparr>calls := calls server @ [GetMoreMembers g]\<rparr>"
  let ?t = "case more_members (api server) (calls server) g of Inl err \<Rightarrow> [] | Inr names \<Rightarrow> names"
  obtain us new where h: "intersect_loop ?s groups [] = ((us, None), ?s\<lparr>calls := calls ?s @ new\<rparr>)"
    using intersect_loop_result[of ?s groups "[]"] by blast
  let ?s2 = "?s\<lparr>calls := calls ?s @ new\<rparr>"
  have a: "run_alone (length groups + 4 + n) server (AtTarget g url)
             = run_alone (length groups + (3 + n)) ?s (AtGroups ?t groups [] url)"
    using assms by (simp add: GetUsers_result numeral_eq_Suc)
  have b: "\<dots> = run_alone (3 + n) ?s2 (AtGroups ?t [] us url)"
    by (rule run_alone_groups[OF h])
  have c: "GetUsersIntersection server g groups = ((getIntersection ?t us, None), ?s2)"
    using h by (simp add: GetUsersIntersection_def GetUsers_result)
  show ?thesis
  proof (cases "length (FindStringSubmatch reStashURL url) = 0")
    case True
    then have "run_alone (3 + n) ?s2 (AtGroups ?t [] us url)
                 = (Responded (http_Error ''wrong url'' StatusBadRequest), ?s2)"
      by (simp add: numeral_3_eq_3 run_alone_Responded)
    moreover have "handleAddReviewers server g url
                 = (http_Error ''wrong url'' StatusBadRequest, ?s2)"
      using assms c True by (simp add: handleAddReviewers_def)
    ultimately show ?thesis
      by (simp only: a b fst_conv snd_conv)
  next
    case False
    let ?m = "FindStringSubmatch reStashURL url"
    let ?us = "getIntersection ?t us"
    have "run_alone (3 + n) ?s2 (AtGroups ?t [] us url)
            = run_alone (Suc (Suc n)) ?s2 (AtPullRequestInfo (?m ! 3) (?m ! 4) (?m ! 5) ?us)"
      using False by (simp add: numeral_3_eq_3 Let_def)
    moreover have "handleAddReviewers server g url
            = (case fst (AddReviewers ?s2 (?m ! 3) (?m ! 4) (?m ! 5) ?us) of
                 Some err \<Rightarrow> http_Error err StatusInternalServerError
               | None \<Rightarrow> http_Error success_body StatusOK,
               snd (AddReviewers ?s2 (?m ! 3) (?m ! 4) (?m ! 5) ?us))"
      using assms c False
      by (simp add: handleAddReviewers_def Let_def split: prod.splits option.splits)
    ultimately show ?thesis
      by (simp only: a b run_alone_put fst_conv snd_conv)
  qed
qed

lemma dispatch_cases:
  "dispatch path =
     (case Index (Trim path ''/'') ''/'' of
        None \<Rightarrow> AtLookup (Trim path ''/'')
      | Some m \<Rightarrow> AtTarget (take m (Trim path ''/'')) (drop (Suc m) (Trim path ''/'')))"
  by (simp add: dispatch_def SplitN_2 split: option.splits)

lemma run_alone_ServeHTTP:
  assumes "length (intersect_groups (config server)) + 4 \<le> n"
  shows "run_alone n server (dispatch path)
           = (Responded (fst (ServeHTTP server path)), snd (ServeHTTP server path))"
proof -
  obtain k where n: "n = length (intersect_groups (config server)) + 4 + k"
    using assms by (metis le_Suc_ex)
  have n3: "n = 3 + (length (intersect_groups (config server)) + 1 + k)"
    using n by simp
  show ?thesis
  proof (cases "Index (Trim path ''/'') ''/''")
    case None
    then show ?thesis
      by (simp only: dispatch_cases ServeHTTP_dispatch option.case n3 run_alone_lookup)
  next
    case (Some m)
    then show ?thesis
      by (simp only: dispatch_cases ServeHTTP_dispatch option.case n run_alone_target[OF refl])
  qed
qed

text \<open>
  Handling requests one after the other is the schedule without overlap.
\<close>

lemma run_events_append:
  "run_events (es @ fs) sys = run_events fs (run_events es sys)"
  by (induction es arbitrary: sys) simp_all

lemma run_events_alone:
  "run_events (replicate n (Step (length reqs))) (server, reqs @ [r])
     = (snd (run_alone n server r), reqs @ [fst (run_alone n server r)])"
  by (induction n arbitrary: server r) (simp_all split: prod.splits)

lemma ServeHTTP_config: "config (snd (ServeHTTP server path)) = config server"
proof (cases "Index (Trim path ''/'') ''/''")
  case None
  then show ?thesis
    by (cases "cache server (Trim path ''/'')")
       (simp_all add: ServeHTTP_dispatch handleGetUsers_hit handleGetUsers_miss Let_def)
next
  case (Some m)
  then show ?thesis
    using handleAddReviewers_calls[of server "take m (Trim path ''/'')" "drop (Suc m) (Trim path ''/'')"]
    by (auto simp: ServeHTTP_dispatch)
qed

lemma serve_requests_schedule:
  assumes "length (intersect_groups (config server)) + 4 \<le> n"
  shows "\<exists>answers. length answers = length paths
          \<and> run_events (one_after_another n (length reqs) paths) (server, reqs)
              = (serve_requests server paths, reqs @ answers)"
  using assms
proof (induction paths arbitrary: server reqs)
  case Nil
  then show ?case by simp
next
  case (Cons path paths)
  let ?s = "snd (ServeHTTP server path)"
  let ?r = "Responded (fst (ServeHTTP server path))"
  have one: "run_events (Arrive path # replicate n (Step (length reqs))) (server, reqs)
               = (?s, reqs @ [?r])"
    using run_alone_ServeHTTP[OF Cons.prems, of path] by (simp add: run_events_alone)
  have "length (intersect_groups (config ?s)) + 4 \<le> n"
    using Cons.prems by (simp add: ServeHTTP_config)
  from Cons.IH[OF this, of "reqs @ [?r]"]
  obtain answers where a: "length answers = length paths"
     "run_events (one_after_another n (Suc (length reqs)) paths) (?s, reqs @ [?r])
        = (serve_requests ?s paths, reqs @ [?r] @ answers)"
    by auto
  have "run_events (one_after_another n (length reqs) (path # paths)) (server, reqs)
          = run_events (one_after_another n (Suc (length reqs)) paths)
              (run_events (Arrive path # replicate n (Step (length reqs))) (server, reqs))"
    by (simp add: run_events_append)
  then have "run_events (one_after_another n (length reqs) (path # paths)) (server, reqs)
          = run_events (one_after_another n (Suc (length reqs)) paths) (?s, reqs @ [?r])"
    by (simp only: one)
  with a show ?case
    by (intro exI[of _ "?r # answers"]) simp
qed

text \<open>
  What one step can do to the cache: nothing, or, at the store of a list-users request,
  set the entry of its group to a non-empty list, whether or not the group has an entry.
\<close>

lemma step_request_cache:
  "step_request server r = (r', server') \<Longrightarrow>
     cache server' = cache server
     \<or> (\<exists>g users. r = AtStore g users \<and> users \<noteq> [] \<and> cache server' = (cache server)(g \<mapsto> users))"
proof (cases r)
  case (AtGroups t groups acc url)
  assume "step_request server r = (r', server')"
  with AtGroups show ?thesis
    by (cases groups) (auto simp: GetUsers_result Let_def split: if_splits)
qed (auto simp: GetUsers_result GetPullRequestInfo_result Let_def
          split: option.splits sum.splits prod.splits if_splits)







text \<open>Under every schedule, no entry is removed and no empty list is stored.\<close>

lemma run_events_never_removes:
  "cache server k \<noteq> None \<Longrightarrow> cache (fst (run_events evs (server, reqs))) k \<noteq> None"
proof (induction evs arbitrary: server reqs)
  case Nil
  then show ?case by simp
next
  case (Cons e evs)
  obtain s1 r1 where one: "run_event e (server, reqs) = (s1, r1)"
    by (cases "run_event e (server, reqs)")
  have "cache s1 k \<noteq> None"
  proof (cases e)
    case (Arrive path)
    with one Cons.prems show ?thesis by auto
  next
    case (Step i)
    show ?thesis
    proof (cases "i < length reqs")
      case False
      with Step one Cons.prems show ?thesis by auto
    next
      case True
      obtain r' s' where st: "step_request server (reqs ! i) = (r', s')"
        by (cases "step_request server (reqs ! i)")
      then have "s1 = s'" using one Step True by simp
      then show ?thesis using step_request_cache[OF st] Cons.prems by auto
    qed
  qed
  then have "cache (fst (run_events evs (s1, r1))) k \<noteq> None" by (rule Cons.IH)
  then show ?case using one by simp
qed

lemma run_events_no_empty_entry:
  "\<forall>g. cache server g \<noteq> Some [] \<Longrightarrow> \<forall>g. cache (fst (run_events evs (server, reqs))) g \<noteq> Some []"
proof (induction evs arbitrary: server reqs)
  case Nil
  then show ?case by simp
next
  case (Cons e evs)
  obtain s1 r1 where one: "run_event e (server, reqs) = (s1, r1)"
    by (cases "run_event e (server, reqs)")
  have "\<forall>g. cache s1 g \<noteq> Some []"
  proof (cases e)
    case (Arrive path)
    with one Cons.prems show ?thesis by auto
  next
    case (Step i)
    show ?thesis
    proof (cases "i < length reqs")
      case False
      with Step one Cons.prems show ?thesis by auto
    next
      case True
      obtain r' s' where st: "step_request server (reqs ! i) = (r', s')"
        by (cases "step_request server (reqs ! i)")
      then have "s1 = s'" using one Step True by simp
      then show ?thesis using step_request_cache[OF st] Cons.prems by (auto split: if_splits)
    qed
  qed
  then have "\<forall>g. cache (fst (run_events evs (s1, r1))) g \<noteq> Some []" by (rule Cons.IH)
  then show ?case using one by simp
qed

section \<open>Properties of the cache and of reviewer assignment\<close>

subsection \<open>The example server\<close>

lemma example_more_members:
  "more_members example_platform history g =
     (if g = ''team''
      then Inr (if GetMoreMembers ''team'' \<in> set history
                then [''carol''] else [''alice'', ''bob'', ''svc''])
      else if g = ''ghost'' then Inl ''unreachable'' else Inr [])"
  by (simp add: example_platform_def)

lemma example_pull_request: "pull_request example_platform history p r i = Inr (''bob'', 7)"
  by (simp add: example_platform_def)

lemma example_server_fields:
  "api example_server = example_platform" "config example_server = example_config"
  "cache example_server = Map.empty" "calls example_server = []"
  by (simp_all add: example_server_def NewSnobServer_def)


lemma dispatch_team: "dispatch ''/team'' = AtLookup ''team''"
  by (simp add: dispatch_cases Trim_def)


subsection \<open>The membership cache\<close>




text \<open>
  C3. When the platform fails to deliver the members of \<open>G\<close>, \<^verbatim>\<open>GetUsers\<close> returns the
  empty list and a nil error, and the cache is left as it was, by \<^verbatim>\<open>GetUsers\<close> and by
  the handler that called it: the handler answers with the empty list, status 200.
\<close>

theorem upstream_failure_swallowed:
  assumes "more_members (api server) (calls server) G = Inl err"
  shows "fst (GetUsers server G) = ([], None)
       \<and> cache (snd (GetUsers server G)) = cache server
       \<and> cache (snd (handleGetUsers server G)) = cache server
       \<and> (cache server G = None \<longrightarrow>
            handleGetUsers server G
              = (encode_users [], server\<lparr>calls := calls server @ [GetMoreMembers G]\<rparr>))"
proof -
  have "cache (snd (handleGetUsers server G)) = cache server"
    using assms by (cases "cache server G") (simp_all add: handleGetUsers_hit handleGetUsers_miss)
  then show ?thesis
    using assms by (simp add: GetUsers_result handleGetUsers_miss)
qed

theorem upstream_failure_swallowed_witness:
  "more_members (api example_server) (calls example_server) ''ghost'' = Inl ''unreachable''
   \<and> fst (GetUsers example_server ''ghost'') = ([], None)
   \<and> cache (snd (GetUsers example_server ''ghost'')) = Map.empty
   \<and> handleGetUsers example_server ''ghost''
       = (encode_users [], example_server\<lparr>calls := [GetMoreMembers ''ghost'']\<rparr>)"
proof -
  have h: "more_members (api example_server) (calls example_server) ''ghost'' = Inl ''unreachable''"
    by (simp add: example_server_fields example_more_members)
  show ?thesis
    using upstream_failure_swallowed[OF h] h by (simp add: example_server_fields)
qed









text \<open>
  When no handler is overtaken by another, a request never rewrites or removes a cache
  entry: an entry present before a request, or before any list of requests handled one
  after the other, is present with the same value afterwards. Such a request leaves the
  cache unchanged or adds one entry under a key that was absent;
  \<^verbatim>\<open>GetUsersIntersection\<close> and the assign-reviewers handler never change it.
\<close>

lemma cache_kept_without_overlap:
  "(cache server k = Some v \<longrightarrow> cache (snd (ServeHTTP server path)) k = Some v)
   \<and> (cache server k = Some v \<longrightarrow> cache (serve_requests server paths) k = Some v)
   \<and> (cache (snd (ServeHTTP server path)) = cache server
       \<or> (\<exists>g users. cache server g = None
             \<and> cache (snd (ServeHTTP server path)) = (cache server)(g \<mapsto> users)))
   \<and> (cache (snd (handleGetUsers server usergroup)) = cache server
       \<or> (\<exists>users. cache server usergroup = None
             \<and> cache (snd (handleGetUsers server usergroup)) = (cache server)(usergroup \<mapsto> users)))
   \<and> cache (snd (GetUsersIntersection server usergroup groups)) = cache server
   \<and> cache (snd (handleAddReviewers server usergroup url)) = cache server"
proof -
  have "cache (snd (GetUsersIntersection server usergroup groups)) = cache server"
    using GetUsersIntersection_result[of server usergroup groups] by auto
  moreover have "cache (snd (ServeHTTP server path)) = cache server
       \<or> (\<exists>g users. cache server g = None
             \<and> cache (snd (ServeHTTP server path)) = (cache server)(g \<mapsto> users))"
    using ServeHTTP_cache[of server path] by blast
  moreover have "cache (snd (handleGetUsers server usergroup)) = cache server
       \<or> (\<exists>users. cache server usergroup = None
             \<and> cache (snd (handleGetUsers server usergroup)) = (cache server)(usergroup \<mapsto> users))"
    using handleGetUsers_cache[of server usergroup] by blast
  ultimately show ?thesis
    using ServeHTTP_keeps[of server k v path] serve_requests_keeps[of server k v paths]
      handleAddReviewers_cache[of server usergroup url]
    by blast
qed

text \<open>
  C9 does not hold when two list-users requests for one group overlap. \<^verbatim>\<open>handleGetUsers\<close>
  stores after \<^verbatim>\<open>GetUsers\<close> has returned, on the strength of a lookup made before it
  was called, and nothing keeps another handler from storing in between. Two requests for
  \<open>/team\<close> arrive at the example server; both look the group up and miss; both request
  the members, and the platform answers alice, bob, svc to the first and carol to the
  second. The first stores its list and answers: after these seven events the cache holds
  alice, bob, svc under team. Then the second stores its own list: the entry written
  under team is rewritten to carol. Entries are never removed (lemma
  \<open>run_events_never_removes\<close>); rewriting by a second store is the only way an entry
  changes (lemma \<open>step_request_cache\<close>).
\<close>

theorem cache_overwrite_race:
  "run_events [Arrive ''/team'', Arrive ''/team'', Step 0, Step 1, Step 0, Step 1, Step 0]
       (example_server, [])
     = (example_server\<lparr>cache := [''team'' \<mapsto> [''alice'', ''bob'', ''svc'']],
                        calls := [GetMoreMembers ''team'', GetMoreMembers ''team'']\<rparr>,
        [Responded (encode_users [''alice'', ''bob'', ''svc'']), AtStore ''team'' [''carol'']])
   \<and> run_events [Arrive ''/team'', Arrive ''/team'', Step 0, Step 1, Step 0, Step 1, Step 0, Step 1]
       (example_server, [])
     = (example_server\<lparr>cache := [''team'' \<mapsto> [''carol'']],
                        calls := [GetMoreMembers ''team'', GetMoreMembers ''team'']\<rparr>,
        [Responded (encode_users [''alice'', ''bob'', ''svc'']),
         Responded (encode_users [''carol''])])"
  by (simp add: dispatch_team GetUsers_result example_server_fields example_more_members)


subsection \<open>Reviewer assignment\<close>

lemma FindStringSubmatch_example:
  "FindStringSubmatch reStashURL example_url
     = [''https://host/path/projects/FOO/repos/bar/pull-requests/42'',
        ''https://host/path/'', ''projects'', ''FOO'', ''bar'', ''42'']"
  unfolding example_url_def by code_simp

text \<open>
  C7. \<^verbatim>\<open>getReviewers\<close>, called with the author and the server's own account as the users
  to ignore, returns the candidates without every occurrence of these two, in their
  order, each as the object \<open>{"user": {"name": <candidate>}}\<close>; for the candidates alice,
  bob, svc, the author bob and the account svc it returns the object of alice only. When
  the pull request can be read, \<^verbatim>\<open>AddReviewers\<close> sends one update, whose payload is the
  object with the pull request's id, exactly this list under \<open>reviewers\<close>, and the
  version just read.
\<close>

theorem reviewers_exclude_author_and_self:
  "getReviewers candidates [author, own]
     = map (\<lambda>u. JObject [(''user'', JObject [(''name'', JString u)])])
         (filter (\<lambda>u. u \<noteq> author \<and> u \<noteq> own) candidates)
   \<and> getReviewers [''alice'', ''bob'', ''svc''] [''bob'', ''svc'']
       = [JObject [(''user'', JObject [(''name'', JString ''alice'')])]]
   \<and> (pull_request (api server) (calls server) project repository pullRequest
         = Inr (author, version) \<longrightarrow>
       calls (snd (AddReviewers server project repository pullRequest candidates))
         = calls server @
           [GetPullRequest project repository pullRequest,
            PutPullRequest project repository pullRequest
              (JObject
                 [(''id'', JString pullRequest),
                  (''reviewers'',
                   JArray (map (\<lambda>u. JObject [(''user'', JObject [(''name'', JString u)])])
                     (filter (\<lambda>u. u \<noteq> author \<and> u \<noteq> stash_user (config server)) candidates))),
                  (''version'', JNumber (sint version))])])"
proof -
  have r: "reviewer = (\<lambda>u. JObject [(''user'', JObject [(''name'', JString u)])])"
    by (rule ext) (simp add: reviewer_def)
  show ?thesis
    by (simp add: getReviewers_eq AddReviewers_result update_payload_def r)
qed

theorem reviewers_exclude_author_and_self_witness:
  "pull_request (api example_server) (calls example_server) ''FOO'' ''bar'' ''42'' = Inr (''bob'', 7)
   \<and> stash_user (config example_server) = ''svc''
   \<and> calls (snd (AddReviewers example_server ''FOO'' ''bar'' ''42'' [''alice'', ''bob'', ''svc'']))
       = [GetPullRequest ''FOO'' ''bar'' ''42'',
          PutPullRequest ''FOO'' ''bar'' ''42''
            (JObject
               [(''id'', JString ''42''),
                (''reviewers'', JArray [JObject [(''user'', JObject [(''name'', JString ''alice'')])]]),
                (''version'', JNumber 7)])]"
proof -
  have h: "pull_request (api example_server) (calls example_server) ''FOO'' ''bar'' ''42''
             = Inr (''bob'', 7)"
    by (simp add: example_server_fields example_pull_request)
  have u: "stash_user (config example_server) = ''svc''"
    by (simp add: example_server_fields example_config_def)
  have "calls (snd (AddReviewers example_server ''FOO'' ''bar'' ''42'' [''alice'', ''bob'', ''svc'']))
         = calls example_server @
           [GetPullRequest ''FOO'' ''bar'' ''42'',
            PutPullRequest ''FOO'' ''bar'' ''42''
              (JObject
                 [(''id'', JString ''42''),
                  (''reviewers'',
                   JArray (map (\<lambda>u. JObject [(''user'', JObject [(''name'', JString u)])])
                     (filter (\<lambda>u. u \<noteq> ''bob'' \<and> u \<noteq> stash_user (config example_server))
                        [''alice'', ''bob'', ''svc'']))),
                  (''version'', JNumber (sint (7 :: 64 word)))])]"
    using reviewers_exclude_author_and_self[of "[''alice'', ''bob'', ''svc'']" "''bob''" "''svc''"
            example_server "''FOO''" "''bar''" "''42''" 7] h
    by blast
  with h u show ?thesis by (simp add: example_server_fields)
qed

lemma handleAddReviewers_success:
  assumes "FindStringSubmatch reStashURL url = [w, a, b, p, r, i]"
      and "intersect_groups (config server) = []"
      and "pull_request (api server) (calls server @ [GetMoreMembers g]) p r i = Inr (author, version)"
  shows "calls (snd (handleAddReviewers server g url))
           = calls server @ [GetMoreMembers g, GetPullRequest p r i,
                             PutPullRequest p r i (update_payload i version [])]"
proof -
  let ?s = "server\<lparr>calls := calls server @ [GetMoreMembers g]\<rparr>"
  have "GetUsersIntersection server g [] = (([], None), ?s)"
    using GetUsersIntersection_result[of server g "[]"] by auto
  then show ?thesis
    using assms
    by (simp add: handleAddReviewers_def Let_def AddReviewers_result split: prod.splits option.splits)
qed

text \<open>
  C10. With an empty list of groups to intersect with, \<^verbatim>\<open>GetUsersIntersection\<close> returns
  no user, whoever is in the target group, and every update the assign-reviewers handler
  sends carries an empty reviewer list; when the URL parses and the pull request can be
  read, the update is sent, with no reviewer.
\<close>

theorem empty_intersect_list_no_reviewers:
  assumes "intersect_groups (config server) = []"
  shows "fst (GetUsersIntersection server usergroup (intersect_groups (config server))) = ([], None)
       \<and> (\<exists>new. calls (snd (handleAddReviewers server usergroup url)) = calls server @ new
             \<and> (\<forall>p r i payload. PutPullRequest p r i payload \<in> set new
                   \<longrightarrow> (\<exists>version. payload = update_payload i version [])))
       \<and> (FindStringSubmatch reStashURL url = [w, a, b, p, r, i]
           \<and> pull_request (api server) (calls server @ [GetMoreMembers usergroup]) p r i
               = Inr (author, version) \<longrightarrow>
           calls (snd (handleAddReviewers server usergroup url))
             = calls server @ [GetMoreMembers usergroup, GetPullRequest p r i,
                               PutPullRequest p r i (update_payload i version [])])"
proof -
  have "fst (GetUsersIntersection server usergroup (intersect_groups (config server))) = ([], None)"
    using GetUsersIntersection_result[of server usergroup "intersect_groups (config server)"] assms
    by auto
  moreover have "\<exists>new. calls (snd (handleAddReviewers server usergroup url)) = calls server @ new
             \<and> (\<forall>p r i payload. PutPullRequest p r i payload \<in> set new
                   \<longrightarrow> (\<exists>version. payload = update_payload i version []))"
  proof -
    obtain new where n: "snd (handleAddReviewers server usergroup url) = server\<lparr>calls := calls server @ new\<rparr>"
      "\<forall>p r i payload. PutPullRequest p r i payload \<in> set new
             \<longrightarrow> (\<exists>v. payload = update_payload i v [])"
      using handleAddReviewers_calls[of server usergroup url] assms by blast
    from n(1) have "calls (snd (handleAddReviewers server usergroup url)) = calls server @ new"
      by simp
    with n(2) show ?thesis by blast
  qed
  ultimately show ?thesis
    using handleAddReviewers_success[OF _ assms] by blast
qed

theorem empty_intersect_list_no_reviewers_witness:
  "intersect_groups (config example_server) = []
   \<and> more_members (api example_server) (calls example_server) ''team''
       = Inr [''alice'', ''bob'', ''svc'']
   \<and> fst (GetUsersIntersection example_server ''team'' []) = ([], None)
   \<and> calls (snd (handleAddReviewers example_server ''team'' example_url))
       = [GetMoreMembers ''team'', GetPullRequest ''FOO'' ''bar'' ''42'',
          PutPullRequest ''FOO'' ''bar'' ''42'' (update_payload ''42'' 7 [])]"
proof -
  have h: "intersect_groups (config example_server) = []"
    by (simp add: example_server_fields example_config_def)
  have m: "more_members (api example_server) (calls example_server) ''team''
             = Inr [''alice'', ''bob'', ''svc'']"
    by (simp add: example_server_fields example_more_members)
  have p: "pull_request (api example_server) (calls example_server @ [GetMoreMembers ''team''])
             ''FOO'' ''bar'' ''42'' = Inr (''bob'', 7)"
    by (simp add: example_server_fields example_pull_request)
  note r = empty_intersect_list_no_reviewers[OF h, of "''team''" example_url
             "''https://host/path/projects/FOO/repos/bar/pull-requests/42''"
             "''https://host/path/''" "''projects''" "''FOO''" "''bar''" "''42''" "''bob''" 7]
  have r1: "fst (GetUsersIntersection example_server ''team'' []) = ([], None)"
    using r h by simp
  have "calls (snd (handleAddReviewers example_server ''team'' example_url))
       = calls example_server @ [GetMoreMembers ''team'', GetPullRequest ''FOO'' ''bar'' ''42'',
          PutPullRequest ''FOO'' ''bar'' ''42'' (update_payload ''42'' 7 [])]"
    using r p FindStringSubmatch_example by blast
  then have r2: "calls (snd (handleAddReviewers example_server ''team'' example_url))
       = [GetMoreMembers ''team'', GetPullRequest ''FOO'' ''bar'' ''42'',
          PutPullRequest ''FOO'' ''bar'' ''42'' (update_payload ''42'' 7 [])]"
    by (simp add: example_server_fields)
  from h m r1 r2 show ?thesis by blast
qed

section \<open>The request router\<close>

lemma split_path_no_slash: "CHR ''/'' \<notin> set s \<Longrightarrow> split_path s = [s]"
  by (induction s) auto

lemma split_path_at_slash:
  "CHR ''/'' \<notin> set a \<Longrightarrow> split_path (a @ CHR ''/'' # b) = a # split_path b"
  by (induction a) auto

lemma split_path_not_Nil: "split_path s \<noteq> []"
  by (induction s) (auto split: list.splits)

lemma split_path_trailing: "split_path (s @ [CHR ''/'']) = split_path s @ [[]]"
  by (induction s) (auto simp: split_path_not_Nil split: list.splits)

lemma segments_no_slash:
  "CHR ''/'' \<notin> set s \<Longrightarrow> segments s = (if s = [] then [] else [s])"
  by (simp add: segments_def split_path_no_slash)

lemma segments_at_slash:
  "CHR ''/'' \<notin> set a \<Longrightarrow>
     segments (a @ CHR ''/'' # b) = (if a = [] then segments b else a # segments b)"
  by (simp add: segments_def split_path_at_slash)

lemma segments_leading: "segments (dropWhile (\<lambda>c. c \<in> set ''/'') s) = segments s"
  by (induction s) (simp_all add: segments_def)

lemma segments_trailing_one: "segments (s @ [CHR ''/'']) = segments s"
  by (simp add: segments_def split_path_trailing)

lemma segments_trailing: "set t \<subseteq> {CHR ''/''} \<Longrightarrow> segments (s @ t) = segments s"
proof (induction t arbitrary: s)
  case Nil
  show ?case by simp
next
  case (Cons c t)
  then have "segments ((s @ [CHR ''/'']) @ t) = segments (s @ [CHR ''/''])"
    by (intro Cons.IH) simp
  with Cons.prems show ?case by (simp add: segments_trailing_one)
qed

lemma rev_dropWhile_split:
  "rev (dropWhile P (rev s)) @ rev (takeWhile P (rev s)) = s"
proof -
  have "rev (takeWhile P (rev s) @ dropWhile P (rev s)) = rev (rev s)"
    by (simp only: takeWhile_dropWhile_id)
  then show ?thesis by (simp only: rev_append rev_rev_ident)
qed

lemma segments_Trim: "segments (Trim path ''/'') = segments path"
proof -
  let ?P = "\<lambda>c. c \<in> set ''/''"
  let ?s = "dropWhile ?P path"
  have "set (rev (takeWhile ?P (rev ?s))) \<subseteq> {CHR ''/''}"
    by (auto dest: set_takeWhileD)
  then have "segments (rev (dropWhile ?P (rev ?s)) @ rev (takeWhile ?P (rev ?s)))
               = segments (rev (dropWhile ?P (rev ?s)))"
    by (rule segments_trailing)
  then have "segments ?s = segments (Trim path ''/'')"
    by (simp only: rev_dropWhile_split Trim_def)
  then have "segments (Trim path ''/'') = segments ?s" by (rule sym)
  also have "segments ?s = segments path" by (rule segments_leading)
  finally show ?thesis .
qed

lemma Index_char:
  "Index s [c] = (if c \<in> set s then Some (length (takeWhile (\<lambda>x. x \<noteq> c) s)) else None)"
  by (induction s) auto

lemma segments_nonempty: "\<exists>c \<in> set b. c \<noteq> CHR ''/'' \<Longrightarrow> segments b \<noteq> []"
  by (induction b) (auto simp: segments_def split_path_not_Nil split: list.splits)


lemma trim_ends_gen:
  fixes P :: "'a \<Rightarrow> bool"
  defines "t \<equiv> \<lambda>s. rev (dropWhile P (rev (dropWhile P s)))"
  shows "t s = [] \<or> (\<not> P (hd (t s)) \<and> \<not> P (last (t s)))"
proof (cases "t s = []")
  case True
  then show ?thesis by (rule disjI1)
next
  case False
  let ?s = "dropWhile P s"
  let ?u = "dropWhile P (rev ?s)"
  have u: "?u \<noteq> []" using False unfolding t_def by (simp only: rev_is_Nil_conv not_False_eq_True)
  then have l: "\<not> P (hd ?u)" by (rule hd_dropWhile)
  have "?s \<noteq> []"
  proof
    assume "?s = []"
    then have "?u = []" by (simp only: rev.simps dropWhile.simps)
    with u show False by (rule notE)
  qed
  then have h: "\<not> P (hd ?s)" by (rule hd_dropWhile)
  have "hd (rev ?u @ rev (takeWhile P (rev ?s))) = hd (rev ?u)"
    using u by (intro hd_append2) (simp only: rev_is_Nil_conv not_False_eq_True)
  then have "hd (rev ?u) = hd ?s" by (simp only: rev_dropWhile_split)
  moreover have "last (rev ?u) = hd ?u" by (simp only: last_rev)
  ultimately have "\<not> P (hd (t s)) \<and> \<not> P (last (t s))"
    using h l unfolding t_def by (simp only: not_False_eq_True conj_commute)
  then show ?thesis by (rule disjI2)
qed

lemma Trim_ends:
  "Trim path ''/'' = [] \<or> (hd (Trim path ''/'') \<noteq> CHR ''/'' \<and> last (Trim path ''/'') \<noteq> CHR ''/'')"
  using trim_ends_gen[of "\<lambda>c. c \<in> set ''/''" path] by (simp add: Trim_def)

lemma Trim_no_slash:
  assumes "CHR ''/'' \<notin> set (Trim path ''/'')"
  shows "segments path = (if Trim path ''/'' = [] then [] else [Trim path ''/''])"
  using segments_no_slash[OF assms] by (simp only: segments_Trim)

lemma Trim_with_slash:
  assumes "CHR ''/'' \<in> set (Trim path ''/'')"
  shows "\<exists>a b. Trim path ''/'' = a @ CHR ''/'' # b \<and> a \<noteq> [] \<and> CHR ''/'' \<notin> set a
            \<and> segments path = a # segments b \<and> segments b \<noteq> []"
proof -
  let ?t = "Trim path ''/''"
  obtain a b where ab: "?t = a @ CHR ''/'' # b" "CHR ''/'' \<notin> set a"
    using assms by (meson split_list_first)
  have ends: "hd ?t \<noteq> CHR ''/''" "last ?t \<noteq> CHR ''/''"
    using Trim_ends[of path] assms by auto
  have a: "a \<noteq> []"
    using ends(1) ab(1) by (cases a) auto
  have b: "b \<noteq> []"
    using ends(2) ab(1) by auto
  then have "last b \<noteq> CHR ''/''"
    using ends(2) ab(1) by simp
  then have "\<exists>c \<in> set b. c \<noteq> CHR ''/''"
    using b last_in_set by blast
  then have nb: "segments b \<noteq> []" by (rule segments_nonempty)
  have "segments ?t = a # segments b"
    using segments_at_slash[OF ab(2), of b] a by (simp only: ab(1)) simp
  then have "segments path = a # segments b" by (simp only: segments_Trim)
  with ab a nb show ?thesis by blast
qed

text \<open>
  C1, as the code has it. The router trims the slashes at both ends of the path and
  splits the rest at its first slash only. A path with exactly one segment enters
  list-users mode with that segment as the group. A path with two or more segments enters
  assign-reviewers mode: its first segment is the group, and everything after the slash
  that follows it, inner slashes included, is the pull-request URL, which holds the
  remaining segments. So \<open>/a/b/c\<close> is not answered with the usage hint: it enters
  assign-reviewers mode with group \<open>a\<close> and URL \<open>b/c\<close>.
\<close>

theorem router_dispatch:
  "(length (segments path) = 1 \<longrightarrow>
      ServeHTTP server path = handleGetUsers server (hd (segments path)))
   \<and> (2 \<le> length (segments path) \<longrightarrow>
      ServeHTTP server path
        = handleAddReviewers server (hd (segments path))
            (drop (Suc (length (hd (segments path)))) (Trim path ''/''))
      \<and> segments (drop (Suc (length (hd (segments path)))) (Trim path ''/''))
          = tl (segments path))"
proof (cases "CHR ''/'' \<in> set (Trim path ''/'')")
  case False
  then have seg: "segments path = (if Trim path ''/'' = [] then [] else [Trim path ''/''])"
    by (rule Trim_no_slash)
  have "ServeHTTP server path = handleGetUsers server (Trim path ''/'')"
    using False by (simp add: ServeHTTP_dispatch Index_char)
  with seg show ?thesis by (simp split: if_splits)
next
  case True
  then obtain a b where ab: "Trim path ''/'' = a @ CHR ''/'' # b" "a \<noteq> []"
      "CHR ''/'' \<notin> set a" "segments path = a # segments b" "segments b \<noteq> []"
    using Trim_with_slash by blast
  have "takeWhile (\<lambda>x. x \<noteq> CHR ''/'') (a @ CHR ''/'' # b) = a"
    using ab(3) by (induction a) auto
  then have "Index (Trim path ''/'') ''/'' = Some (length a)"
    using True by (simp add: Index_char ab(1))
  then have "ServeHTTP server path = handleAddReviewers server a b"
    by (simp add: ServeHTTP_dispatch ab(1))
  moreover have "2 \<le> length (segments path)"
    using ab(4,5) by (cases "segments b") simp_all
  ultimately show ?thesis using ab by simp
qed

lemma example_abc:
  "ServeHTTP example_server ''/a/b/c''
     = (http_Error ''wrong url'' StatusBadRequest,
        example_server\<lparr>calls := [GetMoreMembers ''a'']\<rparr>)"
proof -
  have i: "Index ''a/b/c'' ''/'' = Some 1" by simp
  have m: "FindStringSubmatch reStashURL ''b/c'' = []" by code_simp
  have g: "GetUsersIntersection example_server ''a'' []
             = (([], None), example_server\<lparr>calls := [GetMoreMembers ''a'']\<rparr>)"
    by (simp add: GetUsersIntersection_def GetUsers_result example_server_fields
          example_more_members getIntersection_def)
  have c: "intersect_groups (config example_server) = []"
    by (simp add: example_server_fields example_config_def)
  show ?thesis
    by (simp add: ServeHTTP_dispatch Trim_def i handleAddReviewers_def c g m)
qed

text \<open>
  The request \<open>/a/b/c\<close>, of three segments, on the example server: the members of
  group \<open>a\<close> are requested from the platform, and the answer is 400 with the text
  \<open>wrong url\<close>, not the usage hint.
\<close>

theorem usage_hint_counterexample:
  "length (segments ''/a/b/c'') = 3
   \<and> ServeHTTP example_server ''/a/b/c'' = handleAddReviewers example_server ''a'' ''b/c''
   \<and> fst (ServeHTTP example_server ''/a/b/c'') = http_Error ''wrong url'' StatusBadRequest
   \<and> fst (ServeHTTP example_server ''/a/b/c'') \<noteq> http_Error usage_hint StatusBadRequest
   \<and> calls (snd (ServeHTTP example_server ''/a/b/c'')) = [GetMoreMembers ''a'']
   \<and> calls example_server = []"
proof -
  have s: "length (segments ''/a/b/c'') = 3"
    by (simp add: segments_def)
  have d: "ServeHTTP example_server ''/a/b/c'' = handleAddReviewers example_server ''a'' ''b/c''"
    by (simp add: ServeHTTP_dispatch Trim_def)
  have n: "http_Error ''wrong url'' StatusBadRequest \<noteq> http_Error usage_hint StatusBadRequest"
    by (simp add: http_Error_def usage_hint_def)
  have r: "fst (ServeHTTP example_server ''/a/b/c'') = http_Error ''wrong url'' StatusBadRequest"
    by (simp only: example_abc fst_conv)
  have c: "calls (snd (ServeHTTP example_server ''/a/b/c'')) = [GetMoreMembers ''a'']"
    by (simp add: example_abc)
  have e: "calls example_server = []"
    by (simp add: example_server_fields)
  from n r have "fst (ServeHTTP example_server ''/a/b/c'') \<noteq> http_Error usage_hint StatusBadRequest"
    by simp
  with s d r c e show ?thesis by blast
qed

theorem router_dispatch_witness:
  "length (segments ''/teamX'') = 1
   \<and> ServeHTTP example_server ''/teamX'' = handleGetUsers example_server ''teamX''
   \<and> 2 \<le> length (segments (''/teamX/'' @ example_url))
   \<and> ServeHTTP example_server (''/teamX/'' @ example_url)
       = handleAddReviewers example_server ''teamX'' example_url"
proof -
  have one: "segments ''/teamX'' = [''teamX'']"
    by (simp add: segments_def)
  have many: "segments (''/teamX/'' @ example_url)
                = [''teamX'', ''https:'', ''host'', ''path'', ''projects'', ''FOO'', ''repos'', ''bar'',
                   ''pull-requests'', ''42'']"
    by (simp add: segments_def example_url_def)
  have t: "drop (Suc (length ''teamX'')) (Trim (''/teamX/'' @ example_url) ''/'') = example_url"
    by (simp add: Trim_def example_url_def)
  have l1: "length (segments ''/teamX'') = 1"
    by (simp only: one) simp
  have l2: "2 \<le> length (segments (''/teamX/'' @ example_url))"
    by (simp only: many) simp
  have "ServeHTTP example_server ''/teamX''
          = handleGetUsers example_server (hd (segments ''/teamX''))"
    using router_dispatch[of "''/teamX''" example_server] l1 by blast
  then have d1: "ServeHTTP example_server ''/teamX'' = handleGetUsers example_server ''teamX''"
    by (simp only: one list.sel)
  have "ServeHTTP example_server (''/teamX/'' @ example_url)
          = handleAddReviewers example_server (hd (segments (''/teamX/'' @ example_url)))
              (drop (Suc (length (hd (segments (''/teamX/'' @ example_url)))))
                 (Trim (''/teamX/'' @ example_url) ''/''))"
    using router_dispatch[of "''/teamX/'' @ example_url" example_server] l2 by blast
  then have d2: "ServeHTTP example_server (''/teamX/'' @ example_url)
          = handleAddReviewers example_server ''teamX'' example_url"
    by (simp only: many list.sel t)
  from l1 d1 l2 d2 show ?thesis by blast
qed

text \<open>
  \<^verbatim>\<open>SplitN\<close> returns one empty piece for the empty string, so the path \<open>/\<close> reaches the
  list-users handler with the empty group name, and the \<^verbatim>\<open>default\<close> branch of the router
  is never taken.
\<close>

lemma ServeHTTP_root_path:
  "ServeHTTP server ''/'' = handleGetUsers server []"
  by (simp add: ServeHTTP_dispatch Trim_def)

section \<open>The matcher against the declarative reading of a pattern\<close>

subsection \<open>The matcher lists exactly the declarative matches\<close>

text \<open>
  A pair of captures and left-over input is among the results of the matcher exactly when
  the input is a text the pattern matches, with these captures, followed by the left-over.
\<close>

lemma take_takeWhile_prefix:
  "k \<le> length (takeWhile P s) \<Longrightarrow> take k s = take k (takeWhile P s)"
proof -
  assume k: "k \<le> length (takeWhile P s)"
  have "take k (takeWhile P s @ dropWhile P s) = take k (takeWhile P s)"
    using k by (simp only: take_append diff_is_0_eq' take_0 append_Nil2)
  then show ?thesis by (simp only: takeWhile_dropWhile_id)
qed

lemma list_all_take_takeWhile:
  "k \<le> length (takeWhile P s) \<Longrightarrow> list_all P (take k s)"
proof -
  assume k: "k \<le> length (takeWhile P s)"
  have "set (take k (takeWhile P s)) \<subseteq> set (takeWhile P s)" by (rule set_take_subset)
  then have "list_all P (take k (takeWhile P s))"
    by (auto simp: list_all_iff dest: set_takeWhileD)
  then show ?thesis using take_takeWhile_prefix[OF k] by simp
qed

lemma length_le_takeWhile:
  "list_all P w \<Longrightarrow> length w \<le> length (takeWhile P (w @ rest))"
  by (induction w) simp_all

lemma star_rests:
  "(\<exists>k \<le> length (takeWhile P s). rest = drop k s) \<longleftrightarrow> (\<exists>w. s = w @ rest \<and> list_all P w)"
proof
  assume "\<exists>k \<le> length (takeWhile P s). rest = drop k s"
  then obtain k where k: "k \<le> length (takeWhile P s)" "rest = drop k s" by blast
  have "s = take k s @ rest" using k(2) by simp
  moreover have "list_all P (take k s)" using k(1) by (rule list_all_take_takeWhile)
  ultimately show "\<exists>w. s = w @ rest \<and> list_all P w" by blast
next
  assume "\<exists>w. s = w @ rest \<and> list_all P w"
  then obtain w where w: "s = w @ rest" "list_all P w" by blast
  have "length w \<le> length (takeWhile P s)"
    using length_le_takeWhile[OF w(2), of rest] by (simp only: w(1))
  moreover have "rest = drop (length w) s" by (simp add: w(1))
  ultimately show "\<exists>k \<le> length (takeWhile P s). rest = drop k s" by blast
qed

lemma plus_rests:
  "(\<exists>k. 1 \<le> k \<and> k \<le> length (takeWhile P s) \<and> rest = drop k s)
     \<longleftrightarrow> (\<exists>w. s = w @ rest \<and> w \<noteq> [] \<and> list_all P w)"
proof
  assume "\<exists>k. 1 \<le> k \<and> k \<le> length (takeWhile P s) \<and> rest = drop k s"
  then obtain k where k: "1 \<le> k" "k \<le> length (takeWhile P s)" "rest = drop k s" by blast
  have "s = take k s @ rest" using k(3) by simp
  moreover have "list_all P (take k s)" using k(2) by (rule list_all_take_takeWhile)
  moreover have "take k s \<noteq> []" using k(1,2) by auto
  ultimately show "\<exists>w. s = w @ rest \<and> w \<noteq> [] \<and> list_all P w" by blast
next
  assume "\<exists>w. s = w @ rest \<and> w \<noteq> [] \<and> list_all P w"
  then obtain w where w: "s = w @ rest" "w \<noteq> []" "list_all P w" by blast
  have "length w \<le> length (takeWhile P s)"
    using length_le_takeWhile[OF w(3), of rest] by (simp only: w(1))
  moreover have "rest = drop (length w) s" by (simp add: w(1))
  moreover have "1 \<le> length w" using w(2) by (cases w) simp_all
  ultimately show "\<exists>k. 1 \<le> k \<and> k \<le> length (takeWhile P s) \<and> rest = drop k s" by blast
qed

lemma in_class_rests:
  "(caps, rest) \<in> set (map (\<lambda>k. ([], drop k s)) (rev [a ..< Suc n]))
     \<longleftrightarrow> (caps = [] \<and> (\<exists>k. a \<le> k \<and> k \<le> n \<and> rest = drop k s))"
  by (simp only: set_map set_rev set_upt image_iff atLeastLessThan_iff less_Suc_eq_le
        prod.inject Bex_def) blast

lemma lit_rests: "(take (length l) s = l \<and> rest = drop (length l) s) \<longleftrightarrow> s = l @ rest"
  by (metis append_eq_conv_conj)

lemma rmatch_iff:
  "(caps, rest) \<in> set (rmatch r s) \<longleftrightarrow> (\<exists>w. s = w @ rest \<and> matches r w caps)"
proof (induction r arbitrary: s caps rest)
  case (Lit l)
  show ?case using lit_rests[of l s rest] by auto
next
  case (Opt r)
  then show ?case by auto
next
  case (Star c)
  have "(caps, rest) \<in> set (rmatch (Star c) s)
          \<longleftrightarrow> caps = [] \<and> (\<exists>k \<le> length (takeWhile (cmatch c) s). rest = drop k s)"
    by (simp only: rmatch.simps in_class_rests) simp
  then show ?case by (simp only: star_rests) auto
next
  case (Plus c)
  have "(caps, rest) \<in> set (rmatch (Plus c) s)
          \<longleftrightarrow> caps = [] \<and> (\<exists>k. 1 \<le> k \<and> k \<le> length (takeWhile (cmatch c) s) \<and> rest = drop k s)"
    by (simp only: rmatch.simps in_class_rests)
  then show ?case by (simp only: plus_rests) auto
next
  case (Alt a b)
  then show ?case by auto
next
  case (Seq a b)
  have "(caps, rest) \<in> set (rmatch (Seq a b) s)
          \<longleftrightarrow> (\<exists>c1 s1 c2. (c1, s1) \<in> set (rmatch a s) \<and> (c2, rest) \<in> set (rmatch b s1)
                  \<and> caps = c1 @ c2)"
    by (force simp: image_iff)
  also have "\<dots> \<longleftrightarrow> (\<exists>c1 s1 c2 u v. s = u @ s1 \<and> matches a u c1 \<and> s1 = v @ rest
                  \<and> matches b v c2 \<and> caps = c1 @ c2)"
    by (simp only: Seq.IH) blast
  also have "\<dots> \<longleftrightarrow> (\<exists>w. s = w @ rest \<and> matches (Seq a b) w caps)"
    by (simp only: matches.simps) (metis append.assoc)
  finally show ?case .
next
  case (Grp i r)
  have "(caps, rest) \<in> set (rmatch (Grp i r) s)
          \<longleftrightarrow> (\<exists>c. (c, rest) \<in> set (rmatch r s)
                 \<and> caps = (i, take (length s - length rest) s) # c)"
    by auto
  also have "\<dots> \<longleftrightarrow> (\<exists>c w. s = w @ rest \<and> matches r w c
                 \<and> caps = (i, take (length s - length rest) s) # c)"
    by (simp only: Grp.IH) blast
  also have "\<dots> \<longleftrightarrow> (\<exists>w. s = w @ rest \<and> matches (Grp i r) w caps)"
    by (simp only: matches.simps) (metis append_eq_conv_conj length_append add_diff_cancel_right')
  finally show ?case .
qed

subsection \<open>The texts the pattern of the handler matches\<close>

lemma matches_SeqI:
  "matches a u c1 \<Longrightarrow> matches b v c2 \<Longrightarrow> matches (Seq a b) (u @ v) (c1 @ c2)"
  by (simp only: matches.simps) blast

lemma matches_tail_gen:
  "matches (Seq (Grp i (Alt (Lit a) (Lit b))) (Seq (Lit l1) (Seq (Grp j (Plus c1))
      (Seq (Lit l2) (Seq (Grp k (Plus c2)) (Seq (Lit l3) (Grp m (Plus c3)))))))) w c
   \<longleftrightarrow> (\<exists>kind name repo digits.
         w = kind @ l1 @ name @ l2 @ repo @ l3 @ digits
         \<and> (kind = a \<or> kind = b)
         \<and> name \<noteq> [] \<and> list_all (cmatch c1) name
         \<and> repo \<noteq> [] \<and> list_all (cmatch c2) repo
         \<and> digits \<noteq> [] \<and> list_all (cmatch c3) digits
         \<and> c = [(i, kind), (j, name), (k, repo), (m, digits)])"
  (is "?L \<longleftrightarrow> ?R")
proof
  assume ?L
  then show ?R by auto
next
  assume ?R
  then obtain kind name repo digits where d:
    "w = kind @ l1 @ name @ l2 @ repo @ l3 @ digits" "kind = a \<or> kind = b"
    "name \<noteq> []" "list_all (cmatch c1) name" "repo \<noteq> []" "list_all (cmatch c2) repo"
    "digits \<noteq> []" "list_all (cmatch c3) digits"
    "c = [(i, kind), (j, name), (k, repo), (m, digits)]"
    by blast
  have "matches (Seq (Grp i (Alt (Lit a) (Lit b))) (Seq (Lit l1) (Seq (Grp j (Plus c1))
      (Seq (Lit l2) (Seq (Grp k (Plus c2)) (Seq (Lit l3) (Grp m (Plus c3))))))))
      (kind @ l1 @ name @ l2 @ repo @ l3 @ digits)
      ([(i, kind)] @ [] @ [(j, name)] @ [] @ [(k, repo)] @ [] @ [(m, digits)])"
    using d(2-8) by (intro matches_SeqI) simp_all
  then show ?L by (simp only: d(1,9) append_Nil append_Cons)
qed

lemma matches_head_gen:
  "matches (Grp i (Seq (Lit a) (Seq (Opt (Lit b)) (Seq (Lit l) (Seq (Star cl) (Lit m)))))) w c
   \<longleftrightarrow> (\<exists>scheme mid. w = scheme @ l @ mid @ m \<and> (scheme = a \<or> scheme = a @ b)
          \<and> list_all (cmatch cl) mid \<and> c = [(i, w)])"
  (is "?L \<longleftrightarrow> ?R")
proof
  assume ?L
  then show ?R by auto (blast, metis append.assoc)
next
  assume ?R
  then obtain scheme mid where d: "w = scheme @ l @ mid @ m" "scheme = a \<or> scheme = a @ b"
    "list_all (cmatch cl) mid" "c = [(i, w)]"
    by blast
  have "matches (Seq (Lit a) (Seq (Opt (Lit b)) (Seq (Lit l) (Seq (Star cl) (Lit m)))))
          (a @ s @ l @ mid @ m) ([] @ [] @ [] @ [] @ [])" if "s = [] \<or> s = b" for s
    using that d(3) by (intro matches_SeqI) auto
  then have gen: "matches (Seq (Lit a) (Seq (Opt (Lit b)) (Seq (Lit l) (Seq (Star cl) (Lit m)))))
          (a @ s @ l @ mid @ m) []" if "s = [] \<or> s = b" for s
    using that by (simp only: append_Nil)
  have inner: "matches (Seq (Lit a) (Seq (Opt (Lit b)) (Seq (Lit l) (Seq (Star cl) (Lit m))))) w []"
  proof (rule disjE[OF d(2)])
    assume "scheme = a"
    then have w: "w = a @ [] @ l @ mid @ m" by (simp only: d(1) append_Nil)
    have "[] = [] \<or> [] = b" by simp
    from gen[OF this] show ?thesis by (simp only: w)
  next
    assume "scheme = a @ b"
    then have w: "w = a @ b @ l @ mid @ m" by (simp only: d(1) append_assoc)
    have "b = [] \<or> b = b" by simp
    from gen[OF this] show ?thesis by (simp only: w)
  qed
  show ?L using inner by (simp only: matches.simps(7) d(4)) blast
qed

lemma matches_SeqD:
  "matches (Seq a b) w c \<Longrightarrow> \<exists>u v c1 c2. w = u @ v \<and> c = c1 @ c2 \<and> matches a u c1 \<and> matches b v c2"
  by (simp only: matches.simps)

lemma matches_url_shape_only_if:
  assumes "matches (Seq (Grp i0 (Seq (Lit a) (Seq (Opt (Lit b)) (Seq (Lit l0) (Seq (Star cl) (Lit m0))))))
      (Seq (Grp i (Alt (Lit ka) (Lit kb))) (Seq (Lit l1) (Seq (Grp j (Plus c1))
      (Seq (Lit l2) (Seq (Grp k (Plus c2)) (Seq (Lit l3) (Grp m (Plus c3))))))))) w c"
  shows "\<exists>scheme mid kind name repo digits.
         w = scheme @ l0 @ mid @ m0 @ kind @ l1 @ name @ l2 @ repo @ l3 @ digits
         \<and> (scheme = a \<or> scheme = a @ b)
         \<and> list_all (cmatch cl) mid
         \<and> (kind = ka \<or> kind = kb)
         \<and> name \<noteq> [] \<and> list_all (cmatch c1) name
         \<and> repo \<noteq> [] \<and> list_all (cmatch c2) repo
         \<and> digits \<noteq> [] \<and> list_all (cmatch c3) digits
         \<and> c = [(i0, scheme @ l0 @ mid @ m0), (i, kind), (j, name), (k, repo), (m, digits)]"
proof -
  from matches_SeqD[OF assms]
  obtain u v c1' c2' where s: "w = u @ v" "c = c1' @ c2'"
     "matches (Grp i0 (Seq (Lit a) (Seq (Opt (Lit b)) (Seq (Lit l0) (Seq (Star cl) (Lit m0)))))) u c1'"
     "matches (Seq (Grp i (Alt (Lit ka) (Lit kb))) (Seq (Lit l1) (Seq (Grp j (Plus c1))
      (Seq (Lit l2) (Seq (Grp k (Plus c2)) (Seq (Lit l3) (Grp m (Plus c3)))))))) v c2'"
    by (elim exE conjE)
  from matches_head_gen[THEN iffD1, OF s(3)]
  obtain scheme mid where h: "u = scheme @ l0 @ mid @ m0" "scheme = a \<or> scheme = a @ b"
      "list_all (cmatch cl) mid" "c1' = [(i0, u)]"
    by (elim exE conjE)
  from matches_tail_gen[THEN iffD1, OF s(4)]
  obtain kind name repo digits where t:
      "v = kind @ l1 @ name @ l2 @ repo @ l3 @ digits" "kind = ka \<or> kind = kb"
      "name \<noteq> []" "list_all (cmatch c1) name" "repo \<noteq> []" "list_all (cmatch c2) repo"
      "digits \<noteq> []" "list_all (cmatch c3) digits"
      "c2' = [(i, kind), (j, name), (k, repo), (m, digits)]"
    by (elim exE conjE)
  have w: "w = scheme @ l0 @ mid @ m0 @ kind @ l1 @ name @ l2 @ repo @ l3 @ digits"
    by (simp only: s(1) h(1) t(1) append_assoc)
  have c: "c = [(i0, scheme @ l0 @ mid @ m0), (i, kind), (j, name), (k, repo), (m, digits)]"
    by (simp only: s(2) h(4) h(1) t(9) append_Cons append_Nil)
  show ?thesis
    by (intro exI conjI) (rule w h(2,3) t(2-8) c)+
qed


lemma matches_url_shape_if:
  assumes d: "scheme = a \<or> scheme = a @ b" "list_all (cmatch cl) mid" "kind = ka \<or> kind = kb"
      "name \<noteq> []" "list_all (cmatch c1) name" "repo \<noteq> []" "list_all (cmatch c2) repo"
      "digits \<noteq> []" "list_all (cmatch c3) digits"
  shows "matches (Seq (Grp i0 (Seq (Lit a) (Seq (Opt (Lit b)) (Seq (Lit l0) (Seq (Star cl) (Lit m0))))))
      (Seq (Grp i (Alt (Lit ka) (Lit kb))) (Seq (Lit l1) (Seq (Grp j (Plus c1))
      (Seq (Lit l2) (Seq (Grp k (Plus c2)) (Seq (Lit l3) (Grp m (Plus c3)))))))))
      (scheme @ l0 @ mid @ m0 @ kind @ l1 @ name @ l2 @ repo @ l3 @ digits)
      [(i0, scheme @ l0 @ mid @ m0), (i, kind), (j, name), (k, repo), (m, digits)]"
proof -
  have "\<exists>s' mid'. scheme @ l0 @ mid @ m0 = s' @ l0 @ mid' @ m0 \<and> (s' = a \<or> s' = a @ b)
          \<and> list_all (cmatch cl) mid' \<and> [(i0, scheme @ l0 @ mid @ m0)] = [(i0, scheme @ l0 @ mid @ m0)]"
    by (intro exI conjI) (rule refl d(1,2))+
  then have h: "matches (Grp i0 (Seq (Lit a) (Seq (Opt (Lit b)) (Seq (Lit l0) (Seq (Star cl) (Lit m0))))))
          (scheme @ l0 @ mid @ m0) [(i0, scheme @ l0 @ mid @ m0)]"
    by (rule matches_head_gen[THEN iffD2])
  have "\<exists>kind' name' repo' digits'.
         kind @ l1 @ name @ l2 @ repo @ l3 @ digits = kind' @ l1 @ name' @ l2 @ repo' @ l3 @ digits'
         \<and> (kind' = ka \<or> kind' = kb)
         \<and> name' \<noteq> [] \<and> list_all (cmatch c1) name'
         \<and> repo' \<noteq> [] \<and> list_all (cmatch c2) repo'
         \<and> digits' \<noteq> [] \<and> list_all (cmatch c3) digits'
         \<and> [(i, kind), (j, name), (k, repo), (m, digits)]
             = [(i, kind'), (j, name'), (k, repo'), (m, digits')]"
    by (intro exI conjI) (rule refl d(3-9))+
  then have t: "matches (Seq (Grp i (Alt (Lit ka) (Lit kb))) (Seq (Lit l1) (Seq (Grp j (Plus c1))
      (Seq (Lit l2) (Seq (Grp k (Plus c2)) (Seq (Lit l3) (Grp m (Plus c3))))))))
      (kind @ l1 @ name @ l2 @ repo @ l3 @ digits) [(i, kind), (j, name), (k, repo), (m, digits)]"
    by (rule matches_tail_gen[THEN iffD2])
  from matches_SeqI[OF h t] show ?thesis
    by (simp only: append_assoc append_Cons append_Nil)
qed

lemma matches_url_gen:
  "matches (Seq (Grp i0 (Seq (Lit a) (Seq (Opt (Lit b)) (Seq (Lit l0) (Seq (Star cl) (Lit m0))))))
      (Seq (Grp i (Alt (Lit ka) (Lit kb))) (Seq (Lit l1) (Seq (Grp j (Plus c1))
      (Seq (Lit l2) (Seq (Grp k (Plus c2)) (Seq (Lit l3) (Grp m (Plus c3))))))))) w c
   \<longleftrightarrow> (\<exists>scheme mid kind name repo digits.
         w = scheme @ l0 @ mid @ m0 @ kind @ l1 @ name @ l2 @ repo @ l3 @ digits
         \<and> (scheme = a \<or> scheme = a @ b)
         \<and> list_all (cmatch cl) mid
         \<and> (kind = ka \<or> kind = kb)
         \<and> name \<noteq> [] \<and> list_all (cmatch c1) name
         \<and> repo \<noteq> [] \<and> list_all (cmatch c2) repo
         \<and> digits \<noteq> [] \<and> list_all (cmatch c3) digits
         \<and> c = [(i0, scheme @ l0 @ mid @ m0), (i, kind), (j, name), (k, repo), (m, digits)])"
proof (rule iffI)
  assume "\<exists>scheme mid kind name repo digits.
         w = scheme @ l0 @ mid @ m0 @ kind @ l1 @ name @ l2 @ repo @ l3 @ digits
         \<and> (scheme = a \<or> scheme = a @ b)
         \<and> list_all (cmatch cl) mid
         \<and> (kind = ka \<or> kind = kb)
         \<and> name \<noteq> [] \<and> list_all (cmatch c1) name
         \<and> repo \<noteq> [] \<and> list_all (cmatch c2) repo
         \<and> digits \<noteq> [] \<and> list_all (cmatch c3) digits
         \<and> c = [(i0, scheme @ l0 @ mid @ m0), (i, kind), (j, name), (k, repo), (m, digits)]"
  then obtain scheme mid kind name repo digits where d:
      "w = scheme @ l0 @ mid @ m0 @ kind @ l1 @ name @ l2 @ repo @ l3 @ digits"
      "scheme = a \<or> scheme = a @ b" "list_all (cmatch cl) mid" "kind = ka \<or> kind = kb"
      "name \<noteq> []" "list_all (cmatch c1) name" "repo \<noteq> []" "list_all (cmatch c2) repo"
      "digits \<noteq> []" "list_all (cmatch c3) digits"
      "c = [(i0, scheme @ l0 @ mid @ m0), (i, kind), (j, name), (k, repo), (m, digits)]"
    by (elim exE conjE)
  from matches_url_shape_if[OF d(2-10)]
  show "matches (Seq (Grp i0 (Seq (Lit a) (Seq (Opt (Lit b)) (Seq (Lit l0) (Seq (Star cl) (Lit m0))))))
      (Seq (Grp i (Alt (Lit ka) (Lit kb))) (Seq (Lit l1) (Seq (Grp j (Plus c1))
      (Seq (Lit l2) (Seq (Grp k (Plus c2)) (Seq (Lit l3) (Grp m (Plus c3))))))))) w c"
    by (simp only: d(1,11))
qed (rule matches_url_shape_only_if)

lemma class_simps:
  "list_all (cmatch Dot) mid \<longleftrightarrow> CHR 0x0A \<notin> set mid"
  "list_all (cmatch (NotOneOf ''/'')) name \<longleftrightarrow> CHR ''/'' \<notin> set name"
  "list_all (cmatch Digit) digits \<longleftrightarrow> set digits \<subseteq> set ''0123456789''"
proof -
  show "list_all (cmatch Dot) mid \<longleftrightarrow> CHR 0x0A \<notin> set mid"
    by (auto simp: list_all_iff)
  show "list_all (cmatch (NotOneOf ''/'')) name \<longleftrightarrow> CHR ''/'' \<notin> set name"
    by (auto simp: list_all_iff)
  show "list_all (cmatch Digit) digits \<longleftrightarrow> set digits \<subseteq> set ''0123456789''"
  proof -
    have "cmatch Digit = (\<lambda>x. x \<in> set ''0123456789'')"
      by (rule ext) (simp only: cmatch.simps)
    then show ?thesis by (simp only: list_all_iff subset_eq)
  qed
qed

lemma matches_reStashURL:
  "matches reStashURL w caps \<longleftrightarrow>
     (\<exists>scheme mid kind name repo digits.
        w = pull_request_url scheme mid kind name repo digits
        \<and> url_parts_ok scheme mid kind name repo digits
        \<and> caps = [(1, scheme @ ''://'' @ mid @ ''/''), (2, kind), (3, name), (4, repo), (5, digits)])"
proof -
  have s: "''http'' @ ''s'' = ''https''" by simp
  show ?thesis
    unfolding reStashURL_def matches_url_gen pull_request_url_def url_parts_ok_def class_simps s
    by (simp only: conj_assoc)
qed

subsection \<open>The first result on a URL of the pattern's shape\<close>

text \<open>
  The pieces of the pattern after the first group leave the matcher no choice on such a
  URL, up to the digits, where the longest run comes first. The choice is in \<^verbatim>\<open>.*\<close>, tried
  from the longest to the shortest: any longer choice than the whole host and path ends
  at a later slash, after which too few slashes are left for the rest of the pattern.
\<close>

lemma rmatch_lit: "rmatch (Seq (Lit l) K) (l @ s) = rmatch K s"
  by simp

lemma rmatch_scheme:
  "scheme = ''http'' \<or> scheme = ''https'' \<Longrightarrow>
     rmatch (Seq (Lit ''http'') (Seq (Opt (Lit ''s'')) (Seq (Lit ''://'') X)))
       (scheme @ ''://'' @ s) = rmatch X s"
  by (elim disjE) simp_all

lemma rmatch_kind:
  "kind = ''users'' \<or> kind = ''projects'' \<Longrightarrow>
     rmatch (Seq (Grp i (Alt (Lit ''users'') (Lit ''projects''))) K) (kind @ s)
       = map (\<lambda>(c, r). ((i, kind) # c, r)) (rmatch K s)"
  by (elim disjE) simp_all

lemma takeWhile_segment:
  "m \<notin> set name \<Longrightarrow> takeWhile (cmatch (NotOneOf [m])) (name @ m # s) = name"
  by (induction name) auto

lemma concat_only_first:
  "(\<forall>k \<in> set ks. h k = []) \<Longrightarrow> concat (map h (n # ks)) = h n"
  by (induction ks) simp_all

lemma rmatch_Grp_Plus:
  "rmatch (Grp j (Plus c)) s
     = map (\<lambda>k. ([(j, take k s)], drop k s)) (rev [1 ..< Suc (length (takeWhile (cmatch c) s))])"
proof -
  have "take (length s - length (drop k s)) s = take k s"
    if "k \<in> set (rev [1 ..< Suc (length (takeWhile (cmatch c) s))])" for k
  proof -
    have "length (takeWhile (cmatch c) s) \<le> length s" by (rule length_takeWhile_le)
    moreover from that have "k \<le> length (takeWhile (cmatch c) s)" by auto
    ultimately have "k \<le> length s" by (rule order_trans[rotated])
    then show ?thesis by simp
  qed
  then show ?thesis
    by (simp only: rmatch.simps map_map comp_def prod.case cong: map_cong)
qed

lemma rmatch_Seq_Grp_Plus:
  "rmatch (Seq (Grp j (Plus c)) K) s
     = concat (map (\<lambda>k. map (\<lambda>(c2, s2). ((j, take k s) # c2, s2)) (rmatch K (drop k s)))
                 (rev [1 ..< Suc (length (takeWhile (cmatch c) s))]))"
  by (simp only: rmatch.simps(6) rmatch_Grp_Plus map_map comp_def prod.case append_Cons append_Nil)

lemma rev_upt_1: "0 < n \<Longrightarrow> rev [1 ..< Suc n] = n # rev [1 ..< n]"
  by (cases n) simp_all

lemma rmatch_segment:
  assumes "name \<noteq> []" and "m \<notin> set name"
  shows "rmatch (Seq (Grp j (Plus (NotOneOf [m]))) (Seq (Lit (m # l)) K)) (name @ m # l @ s)
           = map (\<lambda>(c, r). ((j, name) # c, r)) (rmatch K s)"
proof -
  define t where "t = name @ m # l @ s"
  let ?n = "length name"
  let ?K = "Seq (Lit (m # l)) K"
  let ?h = "\<lambda>k. map (\<lambda>(c2, s2). ((j, take k t) # c2, s2)) (rmatch ?K (drop k t))"
  have "takeWhile (cmatch (NotOneOf [m])) (name @ m # l @ s) = name"
    using assms(2) by (rule takeWhile_segment)
  then have tw: "length (takeWhile (cmatch (NotOneOf [m])) t) = ?n"
    by (simp only: t_def)
  have n: "0 < ?n" using assms(1) by simp
  have "rmatch (Seq (Grp j (Plus (NotOneOf [m]))) ?K) t = concat (map ?h (rev [1 ..< Suc ?n]))"
    by (simp only: rmatch_Seq_Grp_Plus tw)
  also have "\<dots> = ?h ?n"
  proof -
    have "\<forall>k \<in> set (rev [1 ..< ?n]). ?h k = []"
    proof
      fix k assume "k \<in> set (rev [1 ..< ?n])"
      then have k: "k < ?n" by simp
      then have "drop k t = name ! k # drop (Suc k) name @ m # l @ s"
        unfolding t_def by (simp add: Cons_nth_drop_Suc)
      moreover have "name ! k \<noteq> m" using assms(2) k by (metis nth_mem)
      ultimately show "?h k = []" by simp
    qed
    then show ?thesis unfolding rev_upt_1[OF n] by (rule concat_only_first)
  qed
  also have "\<dots> = map (\<lambda>(c, r). ((j, name) # c, r)) (rmatch K s)"
  proof -
    have "take ?n t = name" "drop ?n t = (m # l) @ s" unfolding t_def by simp_all
    then show ?thesis by (simp only: rmatch_lit)
  qed
  finally show ?thesis unfolding t_def .
qed

lemma rmatch_digits_hd:
  assumes "digits \<noteq> []" and "set digits \<subseteq> set ''0123456789''"
      and "rest = [] \<or> hd rest \<notin> set ''0123456789''"
  shows "hd (rmatch (Grp i (Plus Digit)) (digits @ rest)) = ([(i, digits)], rest)
       \<and> rmatch (Grp i (Plus Digit)) (digits @ rest) \<noteq> []"
proof -
  define t where "t = digits @ rest"
  have all: "list_all (cmatch Digit) digits" using assms(2) by (simp only: class_simps)
  have "takeWhile (cmatch Digit) rest = []"
    using assms(3) by (cases rest) auto
  moreover have "takeWhile (cmatch Digit) (digits @ rest) = digits @ takeWhile (cmatch Digit) rest"
    using all by (intro takeWhile_append2) (simp only: list_all_iff)
  ultimately have tw: "length (takeWhile (cmatch Digit) t) = length digits"
    unfolding t_def by simp
  have n: "0 < length digits" using assms(1) by simp
  have "take (length digits) t = digits" "drop (length digits) t = rest"
    unfolding t_def by simp_all
  then have "rmatch (Grp i (Plus Digit)) t
          = ([(i, digits)], rest) # map (\<lambda>k. ([(i, take k t)], drop k t)) (rev [1 ..< length digits])"
    by (simp only: rmatch_Grp_Plus tw rev_upt_1[OF n] list.map)
  then show ?thesis unfolding t_def by simp
qed

lemma reStashURL_split: "reStashURL = Seq stash_url_head stash_url_tail"
  by (simp only: reStashURL_def stash_url_head_def stash_url_tail_def)

lemma rmatch_tail:
  assumes "kind = ''users'' \<or> kind = ''projects''"
      and "name \<noteq> []" "CHR ''/'' \<notin> set name"
      and "repo \<noteq> []" "CHR ''/'' \<notin> set repo"
  shows "rmatch stash_url_tail
           (kind @ ''/'' @ name @ ''/repos/'' @ repo @ ''/pull-requests/'' @ s)
         = map (\<lambda>(c, r). ((2, kind) # (3, name) # (4, repo) # c, r))
             (rmatch (Grp 5 (Plus Digit)) s)"
proof -
  let ?K6 = "Grp 5 (Plus Digit)"
  let ?K5 = "Seq (Lit ''/pull-requests/'') ?K6"
  let ?K4 = "Seq (Grp 4 (Plus (NotOneOf ''/''))) ?K5"
  let ?K3 = "Seq (Lit ''/repos/'') ?K4"
  let ?K2 = "Seq (Grp 3 (Plus (NotOneOf ''/''))) ?K3"
  let ?K1 = "Seq (Lit ''/'') ?K2"
  have e4: "rmatch ?K4 (repo @ ''/pull-requests/'' @ s)
              = map (\<lambda>(c, r). ((4, repo) # c, r)) (rmatch ?K6 s)"
    using rmatch_segment[OF assms(4,5), of 4 "''pull-requests/''" ?K6 s] by simp
  have e2: "rmatch ?K2 (name @ ''/repos/'' @ repo @ ''/pull-requests/'' @ s)
              = map (\<lambda>(c, r). ((3, name) # c, r)) (rmatch ?K4 (repo @ ''/pull-requests/'' @ s))"
    using rmatch_segment[OF assms(2,3), of 3 "''repos/''" ?K4 "repo @ ''/pull-requests/'' @ s"]
    by simp
  have e1: "rmatch ?K1 (''/'' @ name @ ''/repos/'' @ repo @ ''/pull-requests/'' @ s)
              = rmatch ?K2 (name @ ''/repos/'' @ repo @ ''/pull-requests/'' @ s)"
    by (rule rmatch_lit)
  have "rmatch stash_url_tail (kind @ ''/'' @ name @ ''/repos/'' @ repo @ ''/pull-requests/'' @ s)
          = map (\<lambda>(c, r). ((2, kind) # c, r))
              (rmatch ?K1 (''/'' @ name @ ''/repos/'' @ repo @ ''/pull-requests/'' @ s))"
    unfolding stash_url_tail_def using assms(1) by (rule rmatch_kind)
  then show ?thesis
    by (simp only: e1 e2 e4 map_map comp_def prod.case case_prod_unfold fst_conv snd_conv)
qed

lemma take1_drop: "take (Suc 0) (drop k s) = [m] \<longleftrightarrow> k < length s \<and> s ! k = m"
proof (cases "k < length s")
  case True
  then have "drop k s = s ! k # drop (Suc k) s" by (simp add: Cons_nth_drop_Suc)
  with True show ?thesis by simp
next
  case False
  then show ?thesis by simp
qed

lemma concat_map_if:
  "concat (map (\<lambda>k. if P k then [f k] else []) ks) = map f (filter P ks)"
  by (induction ks) simp_all

lemma rmatch_Lit_at:
  "rmatch (Lit [m]) (drop k s)
     = (if k < length s \<and> s ! k = m then [([], drop (Suc k) s)] else [])"
  using take1_drop[of k s m] by simp

lemma rmatch_Star_Lit:
  "rmatch (Seq (Star cl) (Lit [m])) s
     = map (\<lambda>k. ([], drop (Suc k) s))
         (filter (\<lambda>k. k < length s \<and> s ! k = m)
            (rev [0 ..< Suc (length (takeWhile (cmatch cl) s))]))"
proof -
  have "map (\<lambda>(c2, s2). ([] @ c2, s2)) (rmatch (Lit [m]) (drop k s))
          = (if k < length s \<and> s ! k = m then [([], drop (Suc k) s)] else [])" for k
    by (simp only: rmatch_Lit_at) simp
  then have "rmatch (Seq (Star cl) (Lit [m])) s
          = concat (map (\<lambda>k. if k < length s \<and> s ! k = m then [([], drop (Suc k) s)] else [])
              (rev [0 ..< Suc (length (takeWhile (cmatch cl) s))]))"
    by (simp only: rmatch.simps(3) rmatch.simps(6) map_map comp_def prod.case)
  then show ?thesis by (simp only: concat_map_if)
qed

lemma rev_upt_split:
  "m \<le> n \<Longrightarrow> rev [0 ..< Suc n] = rev [Suc m ..< Suc n] @ m # rev [0 ..< m]"
proof -
  assume "m \<le> n"
  then have e: "m + (Suc n - m) = Suc n" by simp
  have "[0 ..< m + (Suc n - m)] = [0 ..< m] @ [m ..< m + (Suc n - m)]"
    by (rule upt_add_eq_append) simp
  then have "[0 ..< Suc n] = [0 ..< m] @ [m ..< Suc n]" by (simp only: e)
  moreover have "[m ..< Suc n] = m # [Suc m ..< Suc n]"
    using \<open>m \<le> n\<close> by (intro upt_conv_Cons) simp
  ultimately have "[0 ..< Suc n] = [0 ..< m] @ m # [Suc m ..< Suc n]" by (simp only:)
  then show ?thesis by (simp only: rev_append rev.simps append_assoc append_Cons append_Nil)
qed

lemma hd_concat_greedy:
  assumes "m \<le> n" and "P m" and "h m \<noteq> []"
      and "\<forall>k. m < k \<and> k \<le> n \<and> P k \<longrightarrow> h k = []"
  shows "hd (concat (map h (filter P (rev [0 ..< Suc n])))) = hd (h m)
       \<and> concat (map h (filter P (rev [0 ..< Suc n]))) \<noteq> []"
proof -
  have "concat (map h (filter P (rev [Suc m ..< Suc n]))) = []"
    using assms(4) by auto
  then have "concat (map h (filter P (rev [0 ..< Suc n])))
          = h m @ concat (map h (filter P (rev [0 ..< m])))"
    using assms(2) by (simp add: rev_upt_split[OF assms(1)] del: upt_Suc)
  with assms(3) show ?thesis by simp
qed

lemma rmatch_head:
  assumes "scheme = ''http'' \<or> scheme = ''https''"
  shows "rmatch (Seq stash_url_head K) (scheme @ ''://'' @ s)
     = concat (map (\<lambda>k. map (\<lambda>(c2, s2). ((1, scheme @ ''://'' @ take (Suc k) s) # c2, s2))
                         (rmatch K (drop (Suc k) s)))
         (filter (\<lambda>k. k < length s \<and> s ! k = CHR ''/'')
            (rev [0 ..< Suc (length (takeWhile (cmatch Dot) s))])))"
proof -
  define url where "url = scheme @ ''://'' @ s"
  define ks where "ks = filter (\<lambda>k. k < length s \<and> s ! k = CHR ''/'')
            (rev [0 ..< Suc (length (takeWhile (cmatch Dot) s))])"
  have inner: "rmatch (Seq (Lit ''http'') (Seq (Opt (Lit ''s'')) (Seq (Lit ''://'')
           (Seq (Star Dot) (Lit ''/''))))) url = map (\<lambda>k. ([], drop (Suc k) s)) ks"
    unfolding url_def ks_def using assms by (simp only: rmatch_scheme rmatch_Star_Lit)
  have g: "take (length url - length (drop (Suc k) s)) url = scheme @ ''://'' @ take (Suc k) s"
    if "k \<in> set ks" for k
  proof -
    define p where "p = scheme @ ''://''"
    have urlp: "url = p @ s" by (simp only: url_def p_def append_assoc)
    from that have "k < length s" unfolding ks_def set_filter by blast
    then have "length url - length (drop (Suc k) s) = length p + Suc k"
      by (simp add: urlp)
    then have "take (length url - length (drop (Suc k) s)) url = take (length p + Suc k) (p @ s)"
      by (simp only: urlp)
    also have "\<dots> = p @ take (Suc k) s" by simp
    also have "\<dots> = scheme @ ''://'' @ take (Suc k) s" by (simp only: p_def append_assoc)
    finally show ?thesis .
  qed
  have "rmatch stash_url_head url
          = map (\<lambda>k. ([(1, take (length url - length (drop (Suc k) s)) url)], drop (Suc k) s)) ks"
    unfolding stash_url_head_def
    by (simp only: rmatch.simps(7) inner map_map comp_def prod.case)
  also have "\<dots> = map (\<lambda>k. ([(1, scheme @ ''://'' @ take (Suc k) s)], drop (Suc k) s)) ks"
    using g by (simp cong: map_cong)
  finally have "rmatch stash_url_head url
          = map (\<lambda>k. ([(1, scheme @ ''://'' @ take (Suc k) s)], drop (Suc k) s)) ks" .
  then have "rmatch (Seq stash_url_head K) url
     = concat (map (\<lambda>k. map (\<lambda>(c2, s2). ((1, scheme @ ''://'' @ take (Suc k) s) # c2, s2))
                         (rmatch K (drop (Suc k) s))) ks)"
    by (simp only: rmatch.simps(6) map_map comp_def prod.case append_Cons append_Nil)
  then show ?thesis unfolding url_def ks_def .
qed

lemma tail_needs_slashes:
  assumes "rmatch stash_url_tail x \<noteq> []"
  shows "5 \<le> count_list x (CHR ''/'')"
proof -
  obtain c r where "(c, r) \<in> set (rmatch stash_url_tail x)"
    using assms by (cases "rmatch stash_url_tail x") auto
  then obtain w where w: "x = w @ r" "matches stash_url_tail w c"
    by (auto simp only: rmatch_iff)
  from w(2) obtain kind name repo digits where
    "w = kind @ ''/'' @ name @ ''/repos/'' @ repo @ ''/pull-requests/'' @ digits"
    unfolding stash_url_tail_def matches_tail_gen by (elim exE conjE)
  then show ?thesis by (simp add: w(1))
qed

lemma no_later_match:
  assumes "count_list (CHR ''/'' # t) (CHR ''/'') \<le> 6"
      and "0 < j" and "j < length (CHR ''/'' # t)" and "(CHR ''/'' # t) ! j = CHR ''/''"
  shows "rmatch stash_url_tail (drop (Suc j) (CHR ''/'' # t)) = []"
proof (rule ccontr)
  let ?u = "CHR ''/'' # t"
  assume "rmatch stash_url_tail (drop (Suc j) ?u) \<noteq> []"
  then have five: "5 \<le> count_list (drop (Suc j) ?u) (CHR ''/'')"
    by (rule tail_needs_slashes)
  have "?u = take j ?u @ ?u ! j # drop (Suc j) ?u"
    using assms(3) by (rule id_take_nth_drop)
  then have "count_list ?u (CHR ''/'')
               = count_list (take j ?u) (CHR ''/'') + 1 + count_list (drop (Suc j) ?u) (CHR ''/'')"
    using assms(4) by (metis count_list.simps(2) count_list_append add.assoc add.commute)
  moreover have "1 \<le> count_list (take j ?u) (CHR ''/'')"
    using assms(2) by (cases j) simp_all
  ultimately show False using five assms(1) by linarith
qed

lemma count_slashes_tail:
  assumes "url_parts_ok scheme mid kind name repo digits" and "CHR ''/'' \<notin> set rest"
  shows "count_list (CHR ''/'' # kind @ ''/'' @ name @ ''/repos/'' @ repo @ ''/pull-requests/''
           @ digits @ rest) (CHR ''/'') = 6"
proof -
  have k: "count_list kind (CHR ''/'') = 0"
    using assms(1) by (auto simp: url_parts_ok_def)
  have "CHR ''/'' \<notin> set digits"
    using assms(1) by (auto simp: url_parts_ok_def)
  then have d: "count_list digits (CHR ''/'') = 0" by (rule count_notin)
  have n: "count_list name (CHR ''/'') = 0" "count_list repo (CHR ''/'') = 0"
          "count_list rest (CHR ''/'') = 0"
    using assms by (simp_all add: url_parts_ok_def count_notin)
  show ?thesis by (simp add: k d n)
qed


lemma rmatch_canonical:
  assumes ok: "url_parts_ok scheme mid kind name repo digits"
      and rest: "CHR ''/'' \<notin> set rest" "rest = [] \<or> hd rest \<notin> set ''0123456789''"
  shows "rmatch reStashURL (pull_request_url scheme mid kind name repo digits @ rest) \<noteq> []
       \<and> hd (rmatch reStashURL (pull_request_url scheme mid kind name repo digits @ rest))
           = ([(1, scheme @ ''://'' @ mid @ ''/''), (2, kind), (3, name), (4, repo), (5, digits)],
              rest)"
proof -
  define tr where "tr = kind @ ''/'' @ name @ ''/repos/'' @ repo @ ''/pull-requests/'' @ digits @ rest"
  define s where "s = mid @ ''/'' @ tr"
  define n where "n = length (takeWhile (cmatch Dot) s)"
  define m where "m = length mid"
  define P where "P = (\<lambda>k. k < length s \<and> s ! k = CHR ''/'')"
  define h where "h = (\<lambda>k. map (\<lambda>(c2, s2). ((1, scheme @ ''://'' @ take (Suc k) s) # c2, s2))
                         (rmatch stash_url_tail (drop (Suc k) s)))"
  have parts: "scheme = ''http'' \<or> scheme = ''https''" "CHR 0x0A \<notin> set mid"
      "kind = ''users'' \<or> kind = ''projects''" "name \<noteq> []" "CHR ''/'' \<notin> set name"
      "repo \<noteq> []" "CHR ''/'' \<notin> set repo" "digits \<noteq> []" "set digits \<subseteq> set ''0123456789''"
    using ok unfolding url_parts_ok_def by blast+
  have url: "pull_request_url scheme mid kind name repo digits @ rest = scheme @ ''://'' @ s"
    by (simp only: pull_request_url_def s_def tr_def append_assoc)
  have all: "rmatch reStashURL (scheme @ ''://'' @ s) = concat (map h (filter P (rev [0 ..< Suc n])))"
    unfolding reStashURL_split h_def P_def n_def using parts(1) by (rule rmatch_head)
  have mn: "m \<le> n"
  proof -
    have "takeWhile (cmatch Dot) (mid @ ''/'' @ tr) = mid @ takeWhile (cmatch Dot) (''/'' @ tr)"
      using parts(2) by (intro takeWhile_append2) auto
    then show ?thesis unfolding n_def m_def s_def by simp
  qed
  have Pm: "P m" unfolding P_def m_def s_def by simp
  have dm: "drop (Suc m) s = tr" "take (Suc m) s = mid @ ''/''"
    unfolding m_def s_def by simp_all
  have tail: "rmatch stash_url_tail tr
                = map (\<lambda>(c, r). ((2, kind) # (3, name) # (4, repo) # c, r))
                    (rmatch (Grp 5 (Plus Digit)) (digits @ rest))"
    unfolding tr_def using parts(3-7) by (rule rmatch_tail)
  have dig: "hd (rmatch (Grp 5 (Plus Digit)) (digits @ rest)) = ([(5, digits)], rest)"
            "rmatch (Grp 5 (Plus Digit)) (digits @ rest) \<noteq> []"
    using rmatch_digits_hd[OF parts(8,9) rest(2), of 5] by blast+
  have hm: "h m \<noteq> []"
    unfolding h_def dm tail using dig(2) by simp
  have hdm: "hd (h m)
      = ([(1, scheme @ ''://'' @ mid @ ''/''), (2, kind), (3, name), (4, repo), (5, digits)], rest)"
    unfolding h_def dm tail using dig by (simp add: hd_map)
  have later: "\<forall>k. m < k \<and> k \<le> n \<and> P k \<longrightarrow> h k = []"
  proof (intro allI impI)
    fix k assume k: "m < k \<and> k \<le> n \<and> P k"
    define j where "j = k - m"
    have u: "drop m s = CHR ''/'' # tr" unfolding m_def s_def by simp
    have cnt: "count_list (CHR ''/'' # tr) (CHR ''/'') \<le> 6"
      unfolding tr_def using count_slashes_tail[OF ok rest(1)] by simp
    have j: "0 < j" "m + j = k" using k unfolding j_def by simp_all
    have kl: "k < length s" "s ! k = CHR ''/''" using k unfolding P_def by blast+
    have "length (drop m s) = length s - m" by simp
    then have jl: "j < length (CHR ''/'' # tr)" using kl(1) j(2) unfolding u by linarith
    have "drop m s ! j = s ! (m + j)"
      using kl(1) j(2) by (intro nth_drop) simp
    then have nj: "(CHR ''/'' # tr) ! j = CHR ''/''" using kl(2) j(2) unfolding u by simp
    have "drop (Suc j) (drop m s) = drop (Suc k) s" using j(2) by (simp add: add.commute)
    then have "rmatch stash_url_tail (drop (Suc k) s) = []"
      using no_later_match[OF cnt j(1) jl nj] unfolding u by simp
    then show "h k = []" unfolding h_def by simp
  qed
  from hd_concat_greedy[OF mn Pm hm later] show ?thesis
    unfolding url all hdm by blast
qed

subsection \<open>The leftmost match\<close>

lemma find_first_hit:
  "rmatch r s \<noteq> [] \<Longrightarrow>
     find_first r s = Some (take (length s - length (snd (hd (rmatch r s)))) s,
                            fst (hd (rmatch r s)))"
  by (cases s; cases "rmatch r s") auto

lemma find_first_None_iff:
  "find_first r s = None \<longleftrightarrow> (\<forall>pre t. s = pre @ t \<longrightarrow> rmatch r t = [])"
proof (induction s)
  case Nil
  show ?case by (cases "rmatch r []") auto
next
  case (Cons x xs)
  have "(\<forall>pre t. x # xs = pre @ t \<longrightarrow> rmatch r t = [])
          \<longleftrightarrow> rmatch r (x # xs) = [] \<and> (\<forall>pre t. xs = pre @ t \<longrightarrow> rmatch r t = [])"
    by (auto simp: Cons_eq_append_conv)
  then show ?case using Cons.IH by (cases "rmatch r (x # xs)") auto
qed

lemma find_first_Some:
  "find_first r s = Some (whole, caps) \<Longrightarrow>
     \<exists>pre rest. s = pre @ whole @ rest \<and> matches r whole caps"
proof (induction s)
  case Nil
  then obtain rest more where "rmatch r [] = (caps, rest) # more" "whole = []"
    by (cases "rmatch r []") auto
  then have "(caps, rest) \<in> set (rmatch r [])" by simp
  then obtain w where "[] = w @ rest" "matches r w caps" by (auto simp only: rmatch_iff)
  with \<open>whole = []\<close> show ?case by auto
next
  case (Cons x xs)
  show ?case
  proof (cases "rmatch r (x # xs)")
    case Nil
    with Cons.prems have "find_first r xs = Some (whole, caps)" by simp
    then obtain pre rest where "xs = pre @ whole @ rest" "matches r whole caps"
      using Cons.IH by blast
    then have "x # xs = (x # pre) @ whole @ rest" by simp
    with \<open>matches r whole caps\<close> show ?thesis by blast
  next
    case (Cons p more)
    obtain c rest where p: "p = (c, rest)" by (cases p)
    with Cons Cons.prems have wc: "whole = take (length (x # xs) - length rest) (x # xs)" "caps = c"
      by simp_all
    have "(c, rest) \<in> set (rmatch r (x # xs))" using Cons p by simp
    then obtain w where w: "x # xs = w @ rest" "matches r w c" by (auto simp only: rmatch_iff)
    have "whole = w" unfolding wc(1) by (simp add: w(1))
    then have "x # xs = [] @ whole @ rest" using w(1) by simp
    with w(2) \<open>whole = w\<close> wc(2) show ?thesis by blast
  qed
qed

lemma num_subexp_reStashURL: "num_subexp reStashURL = 5"
  by (simp add: reStashURL_def)

text \<open>
  The result of the match is empty or has the six entries the handler indexes, so
  \<^verbatim>\<open>matches[3]\<close>, \<^verbatim>\<open>matches[4]\<close> and \<^verbatim>\<open>matches[5]\<close> are always in range.
\<close>

lemma FindStringSubmatch_length:
  "length (FindStringSubmatch reStashURL s) = 0 \<or> length (FindStringSubmatch reStashURL s) = 6"
  by (simp add: FindStringSubmatch_def num_subexp_reStashURL split: option.splits)

lemma groups_of_match:
  "map (group_text [(1, g1), (2, g2), (3, g3), (4, g4), (5, g5)]) [1 ..< Suc 5] = [g1, g2, g3, g4, g5]"
  by (simp add: group_text_def upt_rec)

subsection \<open>The parser\<close>

lemma FindStringSubmatch_found:
  assumes "find_first reStashURL url
             = Some (whole, [(1, g1), (2, kind), (3, name), (4, repo), (5, digits)])"
  shows "FindStringSubmatch reStashURL url = [whole, g1, kind, name, repo, digits]"
  unfolding FindStringSubmatch_def assms num_subexp_reStashURL
  by (simp only: option.case prod.case groups_of_match)

lemma parse_found:
  assumes "find_first reStashURL url
             = Some (whole, [(1, g1), (2, kind), (3, name), (4, repo), (5, digits)])"
  shows "parse_pull_request_url url
           = Inr \<lparr>ref_project = name, ref_repository = repo, ref_id = digits\<rparr>"
  unfolding parse_pull_request_url_def FindStringSubmatch_found[OF assms] by simp

lemma parse_canonical:
  assumes "url_parts_ok scheme host_path kind name repo digits"
      and "CHR ''/'' \<notin> set rest" and "rest = [] \<or> hd rest \<notin> set ''0123456789''"
  shows "parse_pull_request_url (pull_request_url scheme host_path kind name repo digits @ rest)
           = Inr \<lparr>ref_project = name, ref_repository = repo, ref_id = digits\<rparr>"
proof -
  let ?url = "pull_request_url scheme host_path kind name repo digits @ rest"
  note c = rmatch_canonical[OF assms]
  from c have ne: "rmatch reStashURL ?url \<noteq> []" by (rule conjunct1)
  from c have h: "hd (rmatch reStashURL ?url)
           = ([(1, scheme @ ''://'' @ host_path @ ''/''), (2, kind), (3, name), (4, repo), (5, digits)],
              rest)" by (rule conjunct2)
  have "find_first reStashURL ?url
          = Some (take (length ?url - length rest) ?url,
                  [(1, scheme @ ''://'' @ host_path @ ''/''), (2, kind), (3, name), (4, repo), (5, digits)])"
    using find_first_hit[OF ne] unfolding h by simp
  then show ?thesis by (rule parse_found)
qed

lemma parse_invalid_iff_not_found:
  "parse_pull_request_url url = Inl InvalidURL \<longleftrightarrow> find_first reStashURL url = None"
  by (auto simp: parse_pull_request_url_def FindStringSubmatch_def Let_def split: option.splits)

lemma parse_invalid_iff:
  "parse_pull_request_url url = Inl InvalidURL \<longleftrightarrow> \<not> contains_pull_request_url url"
proof -
  have "find_first reStashURL url = None
          \<longleftrightarrow> (\<forall>pre t. url = pre @ t \<longrightarrow> (\<forall>caps rest. (caps, rest) \<notin> set (rmatch reStashURL t)))"
    unfolding find_first_None_iff by (metis list.set_intros(1) empty_iff list.set(1) surj_pair neq_Nil_conv)
  also have "\<dots> \<longleftrightarrow> \<not> (\<exists>pre w rest caps. url = pre @ w @ rest \<and> matches reStashURL w caps)"
    unfolding rmatch_iff by blast
  also have "\<dots> \<longleftrightarrow> \<not> contains_pull_request_url url"
    unfolding matches_reStashURL contains_pull_request_url_def by blast
  finally show ?thesis unfolding parse_invalid_iff_not_found .
qed

lemma parse_sound:
  assumes "parse_pull_request_url url = Inr ref"
  shows "\<exists>pre scheme host_path kind rest.
           url = pre @ pull_request_url scheme host_path kind
                         (ref_project ref) (ref_repository ref) (ref_id ref) @ rest
           \<and> url_parts_ok scheme host_path kind (ref_project ref) (ref_repository ref) (ref_id ref)"
proof -
  from assms have "find_first reStashURL url \<noteq> None"
    using parse_invalid_iff_not_found[of url] by auto
  then obtain whole caps where f: "find_first reStashURL url = Some (whole, caps)" by auto
  then obtain pre rest where u: "url = pre @ whole @ rest" "matches reStashURL whole caps"
    using find_first_Some by blast
  from u(2) obtain scheme mid kind name repo digits where m:
      "whole = pull_request_url scheme mid kind name repo digits"
      "url_parts_ok scheme mid kind name repo digits"
      "caps = [(1, scheme @ ''://'' @ mid @ ''/''), (2, kind), (3, name), (4, repo), (5, digits)]"
    unfolding matches_reStashURL by (elim exE conjE)
  have "parse_pull_request_url url
          = Inr \<lparr>ref_project = name, ref_repository = repo, ref_id = digits\<rparr>"
    using f unfolding m(3) by (rule parse_found)
  with assms have "ref = \<lparr>ref_project = name, ref_repository = repo, ref_id = digits\<rparr>" by simp
  then have "ref_project ref = name" "ref_repository ref = repo" "ref_id ref = digits" by simp_all
  with u(1) m(1,2) show ?thesis by blast
qed

lemma handleAddReviewers_parse:
  "handleAddReviewers server usergroup url =
     (case GetUsersIntersection server usergroup (intersect_groups (config server)) of
        ((users, Some err), server') \<Rightarrow> (http_Error err StatusBadRequest, server')
      | ((users, None), server') \<Rightarrow>
          (case parse_pull_request_url url of
             Inl e \<Rightarrow> (http_Error ''wrong url'' StatusBadRequest, server')
           | Inr ref \<Rightarrow>
               (case AddReviewers server' (ref_project ref) (ref_repository ref) (ref_id ref) users of
                  (Some err, server'') \<Rightarrow> (http_Error err StatusInternalServerError, server'')
                | (None, server'') \<Rightarrow> (http_Error success_body StatusOK, server''))))"
  by (simp add: handleAddReviewers_def parse_pull_request_url_def Let_def
           split: prod.splits option.splits)

lemma handleAddReviewers_wrong_url:
  assumes "parse_pull_request_url url = Inl InvalidURL"
  shows "fst (handleAddReviewers server usergroup url) = http_Error ''wrong url'' StatusBadRequest"
proof -
  obtain us new where "GetUsersIntersection server usergroup (intersect_groups (config server))
      = ((us, None), server\<lparr>calls := calls server @ GetMoreMembers usergroup # new\<rparr>)"
    using GetUsersIntersection_result[of server usergroup "intersect_groups (config server)"] by blast
  then show ?thesis unfolding handleAddReviewers_parse assms by simp
qed

lemma parse_example:
  "parse_pull_request_url example_url
     = Inr \<lparr>ref_project = ''FOO'', ref_repository = ''bar'', ref_id = ''42''\<rparr>"
  by (simp add: parse_pull_request_url_def FindStringSubmatch_example)

lemma FindStringSubmatch_missing_suffix:
  "FindStringSubmatch reStashURL missing_suffix_url = []"
  unfolding missing_suffix_url_def by code_simp

lemma parse_missing_suffix: "parse_pull_request_url missing_suffix_url = Inl InvalidURL"
  by (simp add: parse_pull_request_url_def FindStringSubmatch_missing_suffix)

text \<open>
  C6. The parser is the pattern match of \<^verbatim>\<open>handleAddReviewers\<close> with the groups 3, 4 and 5
  read off. A URL of the pattern's shape (scheme \<open>http\<close> or \<open>https\<close>, host and path,
  \<open>users\<close> or \<open>projects\<close>, name, \<open>repos\<close>, repository, \<open>pull-requests\<close>, digits),
  possibly followed by text without a slash that does not start with a digit, is mapped
  to that name, repository and digits. Whatever reference the parser returns, the input
  contains a URL of the shape with exactly these three parts. The URL
  \<open>https://host/path/projects/FOO/repos/bar/pull-requests/42\<close> yields \<open>FOO\<close>, \<open>bar\<close>,
  \<open>42\<close>. The parser fails with \<open>InvalidURL\<close> exactly when the input contains no text
  of the shape, as for the URL without the \<open>pull-requests/<digits>\<close> suffix, and the
  handler then answers 400 with \<open>wrong url\<close>.
\<close>

theorem pull_request_url_parsing:
  "(url_parts_ok scheme host_path kind name repo digits
      \<and> CHR ''/'' \<notin> set rest \<and> (rest = [] \<or> hd rest \<notin> set ''0123456789'')
    \<longrightarrow> parse_pull_request_url (pull_request_url scheme host_path kind name repo digits @ rest)
          = Inr \<lparr>ref_project = name, ref_repository = repo, ref_id = digits\<rparr>)
   \<and> (parse_pull_request_url url = Inr ref
    \<longrightarrow> (\<exists>pre scheme' host_path' kind' rest'.
           url = pre @ pull_request_url scheme' host_path' kind'
                         (ref_project ref) (ref_repository ref) (ref_id ref) @ rest'
           \<and> url_parts_ok scheme' host_path' kind'
                 (ref_project ref) (ref_repository ref) (ref_id ref)))
   \<and> parse_pull_request_url example_url
       = Inr \<lparr>ref_project = ''FOO'', ref_repository = ''bar'', ref_id = ''42''\<rparr>
   \<and> (parse_pull_request_url url = Inl InvalidURL \<longleftrightarrow> \<not> contains_pull_request_url url)
   \<and> parse_pull_request_url missing_suffix_url = Inl InvalidURL
   \<and> (parse_pull_request_url url = Inl InvalidURL
    \<longrightarrow> fst (handleAddReviewers server usergroup url)
          = http_Error ''wrong url'' StatusBadRequest)"
  using parse_canonical[of scheme host_path kind name repo digits rest]
        parse_sound[of url ref] parse_example parse_invalid_iff[of url] parse_missing_suffix
        handleAddReviewers_wrong_url[of url server usergroup]
  by blast

theorem pull_request_url_parsing_witness:
  "url_parts_ok ''https'' ''host/path'' ''projects'' ''FOO'' ''bar'' ''42''
   \<and> parse_pull_request_url
        (pull_request_url ''https'' ''host/path'' ''projects'' ''FOO'' ''bar'' ''42'' @ ''?at=1'')
       = Inr \<lparr>ref_project = ''FOO'', ref_repository = ''bar'', ref_id = ''42''\<rparr>
   \<and> parse_pull_request_url example_url
       = Inr \<lparr>ref_project = ''FOO'', ref_repository = ''bar'', ref_id = ''42''\<rparr>
   \<and> (\<exists>pre scheme host_path kind rest.
         example_url = pre @ pull_request_url scheme host_path kind ''FOO'' ''bar'' ''42'' @ rest
         \<and> url_parts_ok scheme host_path kind ''FOO'' ''bar'' ''42'')
   \<and> parse_pull_request_url missing_suffix_url = Inl InvalidURL
   \<and> \<not> contains_pull_request_url missing_suffix_url
   \<and> fst (handleAddReviewers example_server ''team'' missing_suffix_url)
       = http_Error ''wrong url'' StatusBadRequest"
proof -
  have ok: "url_parts_ok ''https'' ''host/path'' ''projects'' ''FOO'' ''bar'' ''42''"
    by (simp add: url_parts_ok_def)
  have r: "CHR ''/'' \<notin> set ''?at=1''" "''?at=1'' = [] \<or> hd ''?at=1'' \<notin> set ''0123456789''"
    by simp_all
  note t1 = pull_request_url_parsing[of "''https''" "''host/path''" "''projects''" "''FOO''" "''bar''"
              "''42''" "''?at=1''" example_url
              "\<lparr>ref_project = ''FOO'', ref_repository = ''bar'', ref_id = ''42''\<rparr>"
              example_server "''team''"]
  note t2 = pull_request_url_parsing[of "''https''" "''host/path''" "''projects''" "''FOO''" "''bar''"
              "''42''" "''?at=1''" missing_suffix_url
              "\<lparr>ref_project = ''FOO'', ref_repository = ''bar'', ref_id = ''42''\<rparr>"
              example_server "''team''"]
  have a: "parse_pull_request_url
        (pull_request_url ''https'' ''host/path'' ''projects'' ''FOO'' ''bar'' ''42'' @ ''?at=1'')
       = Inr \<lparr>ref_project = ''FOO'', ref_repository = ''bar'', ref_id = ''42''\<rparr>"
    using t1 ok r by blast
  have b: "parse_pull_request_url example_url
       = Inr \<lparr>ref_project = ''FOO'', ref_repository = ''bar'', ref_id = ''42''\<rparr>"
    using t1 by blast
  have "\<exists>pre scheme host_path kind rest.
         example_url = pre @ pull_request_url scheme host_path kind
            (ref_project \<lparr>ref_project = ''FOO'', ref_repository = ''bar'', ref_id = ''42''\<rparr>)
            (ref_repository \<lparr>ref_project = ''FOO'', ref_repository = ''bar'', ref_id = ''42''\<rparr>)
            (ref_id \<lparr>ref_project = ''FOO'', ref_repository = ''bar'', ref_id = ''42''\<rparr>) @ rest
         \<and> url_parts_ok scheme host_path kind
            (ref_project \<lparr>ref_project = ''FOO'', ref_repository = ''bar'', ref_id = ''42''\<rparr>)
            (ref_repository \<lparr>ref_project = ''FOO'', ref_repository = ''bar'', ref_id = ''42''\<rparr>)
            (ref_id \<lparr>ref_project = ''FOO'', ref_repository = ''bar'', ref_id = ''42''\<rparr>)"
    using t1 b by blast
  then have c: "\<exists>pre scheme host_path kind rest.
         example_url = pre @ pull_request_url scheme host_path kind ''FOO'' ''bar'' ''42'' @ rest
         \<and> url_parts_ok scheme host_path kind ''FOO'' ''bar'' ''42''"
    by (simp only: pull_request_ref.simps)
  have d: "parse_pull_request_url missing_suffix_url = Inl InvalidURL"
    using t2 by blast
  have e: "\<not> contains_pull_request_url missing_suffix_url"
    using t2 d by blast
  have f: "fst (handleAddReviewers example_server ''team'' missing_suffix_url)
             = http_Error ''wrong url'' StatusBadRequest"
    using t2 d by blast
  from ok a b c d e f show ?thesis by blast
qed

end
